theory Spec2Isabelle
  imports Main "HOL-Library.Log_Nat" "HOL-Library.Multiset"
begin

section \<open>The arithmetic of \<^verbatim>\<open>double\<close> and \<^verbatim>\<open>float\<close>\<close>

text \<open>
  \<^verbatim>\<open>buddhabrot.cpp\<close> computes with \<^verbatim>\<open>double\<close> (the class \<^verbatim>\<open>Complex\<close>, the coordinate
  mapper) and with \<^verbatim>\<open>float\<close> (\<^verbatim>\<open>typedef float HeatmapType\<close>). Both are modelled as
  IEEE 754 numbers, binary64 and binary32, each operation rounded to nearest with ties
  to even and evaluated in the precision of its type (no excess precision, no fused
  multiply-add). A finite number is the rational it denotes; the infinities and NaN are
  values of their own. The sign of a zero is not represented: the program never looks at
  it, and a zero divisor is taken as \<open>+0\<close>, which is what its two divisors are when
  they vanish (the \<open>0\<close> that \<^verbatim>\<open>maxHeatmapValue\<close> starts from, and \<open>x - x\<close>).
\<close>

datatype fp = Finite rat | PInf | NInf | NaN

type_synonym double = fp
type_synonym float = fp

text \<open>\<open>ilog2 q\<close> is the exponent of the leading bit of \<open>q \<noteq> 0\<close>: \<open>2 ^ e \<le> |q| < 2 ^ (e + 1)\<close>.\<close>

definition ilog2 :: "rat \<Rightarrow> int" where
  "ilog2 q = (let (a, b) = quotient_of \<bar>q\<bar>; k = bitlen a - bitlen b
              in if 2 powi k \<le> \<bar>q\<bar> then k else k - 1)"

definition round_half_even :: "rat \<Rightarrow> int" where
  "round_half_even x = (let f = \<lfloor>x\<rfloor>; d = x - of_int f
     in if d < 1 / 2 then f else if 1 / 2 < d then f + 1 else if even f then f else f + 1)"

text \<open>
  Rounding to the format with \<open>p\<close> significant bits and largest exponent \<open>emax\<close>
  (smallest normal exponent \<open>1 - emax\<close>, below which the spacing stays that of the
  subnormal numbers). A result of magnitude \<open>2 ^ (emax + 1)\<close> or more overflows.
\<close>

definition rnd :: "nat \<Rightarrow> int \<Rightarrow> rat \<Rightarrow> fp" where
  "rnd p emax q = (if q = 0 then Finite 0 else
     let e = max (ilog2 q) (1 - emax);
         u = 2 powi (e - int p + 1);
         r = of_int (round_half_even (q / u)) * u
     in if 2 powi (emax + 1) \<le> \<bar>r\<bar> then (if 0 < q then PInf else NInf) else Finite r)"

definition rnd64 :: "rat \<Rightarrow> double" where
  "rnd64 = rnd 53 1023"

definition rnd32 :: "rat \<Rightarrow> float" where
  "rnd32 = rnd 24 127"

fun fp_neg :: "fp \<Rightarrow> fp" where
  "fp_neg (Finite x) = Finite (- x)"
| "fp_neg PInf = NInf"
| "fp_neg NInf = PInf"
| "fp_neg NaN = NaN"

fun fp_add :: "(rat \<Rightarrow> fp) \<Rightarrow> fp \<Rightarrow> fp \<Rightarrow> fp" where
  "fp_add rn (Finite x) (Finite y) = rn (x + y)"
| "fp_add rn NaN b = NaN"
| "fp_add rn a NaN = NaN"
| "fp_add rn PInf NInf = NaN"
| "fp_add rn NInf PInf = NaN"
| "fp_add rn PInf b = PInf"
| "fp_add rn a PInf = PInf"
| "fp_add rn NInf b = NInf"
| "fp_add rn a NInf = NInf"

definition fp_sub :: "(rat \<Rightarrow> fp) \<Rightarrow> fp \<Rightarrow> fp \<Rightarrow> fp" where
  "fp_sub rn a b = fp_add rn a (fp_neg b)"

fun fp_mul :: "(rat \<Rightarrow> fp) \<Rightarrow> fp \<Rightarrow> fp \<Rightarrow> fp" where
  "fp_mul rn (Finite x) (Finite y) = rn (x * y)"
| "fp_mul rn NaN b = NaN"
| "fp_mul rn a NaN = NaN"
| "fp_mul rn (Finite x) PInf = (if x = 0 then NaN else if 0 < x then PInf else NInf)"
| "fp_mul rn (Finite x) NInf = (if x = 0 then NaN else if 0 < x then NInf else PInf)"
| "fp_mul rn PInf (Finite y) = (if y = 0 then NaN else if 0 < y then PInf else NInf)"
| "fp_mul rn NInf (Finite y) = (if y = 0 then NaN else if 0 < y then NInf else PInf)"
| "fp_mul rn PInf PInf = PInf"
| "fp_mul rn PInf NInf = NInf"
| "fp_mul rn NInf PInf = NInf"
| "fp_mul rn NInf NInf = PInf"

fun fp_div :: "(rat \<Rightarrow> fp) \<Rightarrow> fp \<Rightarrow> fp \<Rightarrow> fp" where
  "fp_div rn (Finite x) (Finite y) =
     (if y = 0 then (if x = 0 then NaN else if 0 < x then PInf else NInf) else rn (x / y))"
| "fp_div rn NaN b = NaN"
| "fp_div rn a NaN = NaN"
| "fp_div rn (Finite x) PInf = Finite 0"
| "fp_div rn (Finite x) NInf = Finite 0"
| "fp_div rn PInf (Finite y) = (if 0 \<le> y then PInf else NInf)"
| "fp_div rn NInf (Finite y) = (if 0 \<le> y then NInf else PInf)"
| "fp_div rn PInf b = NaN"
| "fp_div rn NInf b = NaN"

text \<open>The comparisons \<^verbatim>\<open><=\<close> and \<^verbatim>\<open><\<close>; any comparison with NaN is false.\<close>

fun fp_le :: "fp \<Rightarrow> fp \<Rightarrow> bool" where
  "fp_le (Finite x) (Finite y) = (x \<le> y)"
| "fp_le NaN b = False"
| "fp_le a NaN = False"
| "fp_le NInf b = True"
| "fp_le a PInf = True"
| "fp_le PInf b = False"
| "fp_le a NInf = False"

fun fp_lt :: "fp \<Rightarrow> fp \<Rightarrow> bool" where
  "fp_lt (Finite x) (Finite y) = (x < y)"
| "fp_lt NaN b = False"
| "fp_lt a NaN = False"
| "fp_lt PInf b = False"
| "fp_lt a NInf = False"
| "fp_lt NInf b = True"
| "fp_lt a PInf = True"

text \<open>\<^verbatim>\<open>a >= b\<close> and \<^verbatim>\<open>a > b\<close>.\<close>

definition fp_ge :: "fp \<Rightarrow> fp \<Rightarrow> bool" where
  "fp_ge a b = fp_le b a"

definition fp_gt :: "fp \<Rightarrow> fp \<Rightarrow> bool" where
  "fp_gt a b = fp_lt b a"

definition add64 :: "double \<Rightarrow> double \<Rightarrow> double" where
  "add64 = fp_add rnd64"

definition sub64 :: "double \<Rightarrow> double \<Rightarrow> double" where
  "sub64 = fp_sub rnd64"

definition mul64 :: "double \<Rightarrow> double \<Rightarrow> double" where
  "mul64 = fp_mul rnd64"

definition div64 :: "double \<Rightarrow> double \<Rightarrow> double" where
  "div64 = fp_div rnd64"

definition add32 :: "float \<Rightarrow> float \<Rightarrow> float" where
  "add32 = fp_add rnd32"

definition mul32 :: "float \<Rightarrow> float \<Rightarrow> float" where
  "mul32 = fp_mul rnd32"

definition div32 :: "float \<Rightarrow> float \<Rightarrow> float" where
  "div32 = fp_div rnd32"

text \<open>
  The conversions. \<^verbatim>\<open>int\<close> to \<^verbatim>\<open>double\<close> and \<^verbatim>\<open>float\<close> to \<^verbatim>\<open>double\<close> are exact;
  \<^verbatim>\<open>double\<close> to \<^verbatim>\<open>float\<close> rounds; \<^verbatim>\<open>(int)\<close> truncates toward zero and is undefined
  for NaN, the infinities and a value outside the range of a 32-bit \<^verbatim>\<open>int\<close>.
\<close>

datatype error = UndefinedBehaviour | LengthError | BadArrayNewLength

definition int_to_double :: "int \<Rightarrow> double" where
  "int_to_double n = rnd64 (of_int n)"

definition int_to_float :: "int \<Rightarrow> float" where
  "int_to_float n = rnd32 (of_int n)"

definition float_to_double :: "float \<Rightarrow> double" where
  "float_to_double x = x"

fun double_to_float :: "double \<Rightarrow> float" where
  "double_to_float (Finite q) = rnd32 q"
| "double_to_float x = x"

definition truncate :: "rat \<Rightarrow> int" where
  "truncate q = (if 0 \<le> q then \<lfloor>q\<rfloor> else \<lceil>q\<rceil>)"

fun double_to_int :: "double \<Rightarrow> error + int" where
  "double_to_int (Finite q) =
     (if - (2 ^ 31) \<le> truncate q \<and> truncate q < 2 ^ 31 then Inr (truncate q)
      else Inl UndefinedBehaviour)"
| "double_to_int x = Inl UndefinedBehaviour"

text \<open>
  A number (neither an infinity nor NaN), and a datum that the type \<^verbatim>\<open>double\<close> can hold:
  NaN, an infinity, or a rational that binary64 represents (rounding leaves it alone).
\<close>

fun is_finite :: "fp \<Rightarrow> bool" where
  "is_finite (Finite q) = True"
| "is_finite x = False"

fun is_double :: "fp \<Rightarrow> bool" where
  "is_double (Finite q) = (rnd64 q = Finite q)"
| "is_double x = True"

text \<open>The values a square or a sum of squares can take: a number \<open>\<ge> 0\<close> or \<open>+\<infinity>\<close>.\<close>

fun nonneg_fp :: "fp \<Rightarrow> bool" where
  "nonneg_fp (Finite a) = (0 \<le> a)"
| "nonneg_fp PInf = True"
| "nonneg_fp x = False"

section \<open>The complex-number kernel\<close>

text \<open>
  \<^verbatim>\<open>class Complex\<close> with its private fields \<^verbatim>\<open>_r\<close>, \<^verbatim>\<open>_i\<close> (read by \<^verbatim>\<open>r()\<close>, \<^verbatim>\<open>i()\<close>;
  here \<open>c_r\<close>, \<open>c_i\<close>), \<^verbatim>\<open>operator*\<close> (\<open>cmul\<close>), \<^verbatim>\<open>operator+\<close> (\<open>cadd\<close>) and
  \<^verbatim>\<open>sqmagnitude\<close>.
\<close>

datatype Complex = Complex (c_r: double) (c_i: double)

definition cmul :: "Complex \<Rightarrow> Complex \<Rightarrow> Complex" where
  "cmul a b = Complex (sub64 (mul64 (c_r a) (c_r b)) (mul64 (c_i a) (c_i b)))
                      (add64 (mul64 (c_r a) (c_i b)) (mul64 (c_i a) (c_r b)))"

definition cadd :: "Complex \<Rightarrow> Complex \<Rightarrow> Complex" where
  "cadd a b = Complex (add64 (c_r a) (c_r b)) (add64 (c_i a) (c_i b))"

definition sqmagnitude :: "Complex \<Rightarrow> double" where
  "sqmagnitude z = add64 (mul64 (c_r z) (c_r z)) (mul64 (c_i z) (c_i z))"

section \<open>The trajectory sampler\<close>

text \<open>
  The \<^verbatim>\<open>while\<close> loop of \<^verbatim>\<open>buddhabrotPoints\<close>, on its variables \<open>n\<close>, \<open>z\<close> and
  \<open>toReturn\<close>; it returns the final \<open>n\<close> and \<open>toReturn\<close>.
\<close>

function buddhabrot_loop ::
  "Complex \<Rightarrow> int \<Rightarrow> int \<Rightarrow> Complex \<Rightarrow> Complex list \<Rightarrow> int \<times> Complex list" where
  "buddhabrot_loop c nIterations n z toReturn =
     (if n < nIterations \<and> fp_le (sqmagnitude z) (Finite 2)
      then buddhabrot_loop c nIterations (n + 1) (cadd (cmul z z) c)
             (toReturn @ [cadd (cmul z z) c])
      else (n, toReturn))"
  by pat_completeness auto
termination
  by (relation "measure (\<lambda>(c, nIterations, n, z, toReturn). nat (nIterations - n))") auto

text \<open>
  \<^verbatim>\<open>toReturn.reserve(nIterations)\<close> converts a negative \<^verbatim>\<open>int\<close> to a size beyond
  \<^verbatim>\<open>max_size()\<close> and throws \<^verbatim>\<open>std::length_error\<close>.
\<close>

definition buddhabrotPoints :: "Complex \<Rightarrow> int \<Rightarrow> error + Complex list" where
  "buddhabrotPoints c nIterations =
     (if nIterations < 0 then Inl LengthError
      else case buddhabrot_loop c nIterations 0 (Complex (Finite 0) (Finite 0)) [] of
        (n, toReturn) \<Rightarrow> if n = nIterations then Inr [] else Inr toReturn)"

text \<open>
  The iteration the specification speaks of: \<open>orbit c k\<close> is the value of \<open>z\<close> after
  \<open>k\<close> rounds of \<open>z \<leftarrow> z\<^sup>2 + c\<close> from \<open>z = 0\<close>, whether or not the loop gets that far.
\<close>

fun orbit :: "Complex \<Rightarrow> nat \<Rightarrow> Complex" where
  "orbit c 0 = Complex (Finite 0) (Finite 0)"
| "orbit c (Suc k) = cadd (cmul (orbit c k) (orbit c k)) c"

section \<open>The coordinate mapper\<close>

definition rowFromReal :: "double \<Rightarrow> double \<Rightarrow> double \<Rightarrow> int \<Rightarrow> error + int" where
  "rowFromReal real' minR maxR imageHeight =
     double_to_int (mul64 (sub64 real' minR) (div64 (int_to_double imageHeight) (sub64 maxR minR)))"

definition colFromImaginary :: "double \<Rightarrow> double \<Rightarrow> double \<Rightarrow> int \<Rightarrow> error + int" where
  "colFromImaginary imag minI maxI imageWidth =
     double_to_int (mul64 (sub64 imag minI) (div64 (int_to_double imageWidth) (sub64 maxI minI)))"

section \<open>The heatmap and its generator\<close>

text \<open>
  A heatmap is the array of \<open>height\<close> rows of \<open>width\<close> cells that \<^verbatim>\<open>AllocHeatmap\<close>
  builds, every cell \<open>0\<close>. A negative length makes \<^verbatim>\<open>new[]\<close> throw.
\<close>

type_synonym heatmap = "float list list"

definition AllocHeatmap :: "int \<Rightarrow> int \<Rightarrow> error + heatmap" where
  "AllocHeatmap width height =
     (if height < 0 \<or> (0 < height \<and> width < 0) then Inl BadArrayNewLength
      else Inr (replicate (nat height) (replicate (nat width) (Finite 0))))"

text \<open>
  The body of the loop over \<^verbatim>\<open>pointsList\<close> in \<^verbatim>\<open>GenerateHeatmap\<close>, on the heatmap and
  \<^verbatim>\<open>o_maxHeatmapValue\<close>. The source indexes raw arrays: an index outside the
  allocated rows and cells is undefined behaviour, an error value here.
\<close>

definition in_view :: "Complex \<Rightarrow> Complex \<Rightarrow> Complex \<Rightarrow> bool" where
  "in_view minimum maximum point =
     (fp_le (c_r point) (c_r maximum) \<and> fp_ge (c_r point) (c_r minimum) \<and>
      fp_le (c_i point) (c_i maximum) \<and> fp_ge (c_i point) (c_i minimum))"

definition increment_cell :: "heatmap \<times> float \<Rightarrow> nat \<Rightarrow> nat \<Rightarrow> heatmap \<times> float" where
  "increment_cell s row col =
     (let v = add32 (fst s ! row ! col) (Finite 1);
          o_heatmap = (fst s)[row := (fst s ! row)[col := v]]
      in (o_heatmap, if fp_gt v (snd s) then v else snd s))"

definition accumulate_point ::
  "int \<Rightarrow> int \<Rightarrow> Complex \<Rightarrow> Complex \<Rightarrow> Complex \<Rightarrow> heatmap \<times> float \<Rightarrow> error + heatmap \<times> float" where
  "accumulate_point imageWidth imageHeight minimum maximum point s =
     (if in_view minimum maximum point then
        case rowFromReal (c_r point) (c_r minimum) (c_r maximum) imageHeight of
          Inl e \<Rightarrow> Inl e
        | Inr row \<Rightarrow>
           (case colFromImaginary (c_i point) (c_i minimum) (c_i maximum) imageWidth of
              Inl e \<Rightarrow> Inl e
            | Inr col \<Rightarrow>
               if 0 \<le> row \<and> row < int (length (fst s)) \<and>
                  0 \<le> col \<and> col < int (length (fst s ! nat row))
               then Inr (increment_cell s (nat row) (nat col))
               else Inl UndefinedBehaviour)
      else Inr s)"

fun accumulate_points ::
  "int \<Rightarrow> int \<Rightarrow> Complex \<Rightarrow> Complex \<Rightarrow> Complex list \<Rightarrow> heatmap \<times> float \<Rightarrow> error + heatmap \<times> float" where
  "accumulate_points imageWidth imageHeight minimum maximum [] s = Inr s"
| "accumulate_points imageWidth imageHeight minimum maximum (point # pointsList) s =
     (case accumulate_point imageWidth imageHeight minimum maximum point s of
        Inl e \<Rightarrow> Inl e
      | Inr s' \<Rightarrow> accumulate_points imageWidth imageHeight minimum maximum pointsList s')"

text \<open>
  The loop over the samples. The random draws of the source are the list \<open>samples\<close>
  (its length is \<^verbatim>\<open>nSamples\<close>); the unused \<^verbatim>\<open>consoleMessagePrefix\<close> is left out.
\<close>

fun generate_samples ::
  "int \<Rightarrow> int \<Rightarrow> Complex \<Rightarrow> Complex \<Rightarrow> int \<Rightarrow> Complex list \<Rightarrow> heatmap \<times> float \<Rightarrow>
   error + heatmap \<times> float" where
  "generate_samples imageWidth imageHeight minimum maximum nIterations [] s = Inr s"
| "generate_samples imageWidth imageHeight minimum maximum nIterations (sample # samples) s =
     (case buddhabrotPoints sample nIterations of
        Inl e \<Rightarrow> Inl e
      | Inr pointsList \<Rightarrow>
         (case accumulate_points imageWidth imageHeight minimum maximum pointsList s of
            Inl e \<Rightarrow> Inl e
          | Inr s' \<Rightarrow>
             generate_samples imageWidth imageHeight minimum maximum nIterations samples s'))"

definition GenerateHeatmap ::
  "heatmap \<Rightarrow> int \<Rightarrow> int \<Rightarrow> Complex \<Rightarrow> Complex \<Rightarrow> int \<Rightarrow> Complex list \<Rightarrow> float \<Rightarrow>
   error + heatmap \<times> float" where
  "GenerateHeatmap o_heatmap imageWidth imageHeight minimum maximum nIterations samples
     o_maxHeatmapValue =
     generate_samples imageWidth imageHeight minimum maximum nIterations samples
       (o_heatmap, o_maxHeatmapValue)"

section \<open>The normalizer\<close>

definition colorFromHeatmap :: "float \<Rightarrow> float \<Rightarrow> float \<Rightarrow> float" where
  "colorFromHeatmap inputValue maxHeatmapValue maxColor =
     (let scale = float_to_double
            (div32 (mul32 (Finite 1) maxColor) (mul32 (Finite 1) maxHeatmapValue))
      in double_to_float (mul64 (float_to_double inputValue) scale))"

section \<open>Notions for the properties of the generator\<close>

text \<open>
  \<open>target\<close> is the cell that \<open>accumulate_point\<close> counts a point in: none for a point the
  filter discards, an error where the index is undefined or outside the heatmap. The two
  loops of \<^verbatim>\<open>GenerateHeatmap\<close> are folds of \<open>point_step\<close> and \<open>sample_step\<close>, which pass
  an error on.
\<close>

definition target ::
  "int \<Rightarrow> int \<Rightarrow> Complex \<Rightarrow> Complex \<Rightarrow> Complex \<Rightarrow> heatmap \<Rightarrow> error + (nat \<times> nat) option" where
  "target imageWidth imageHeight minimum maximum point o_heatmap =
     (if in_view minimum maximum point then
        case rowFromReal (c_r point) (c_r minimum) (c_r maximum) imageHeight of
          Inl e \<Rightarrow> Inl e
        | Inr row \<Rightarrow>
           (case colFromImaginary (c_i point) (c_i minimum) (c_i maximum) imageWidth of
              Inl e \<Rightarrow> Inl e
            | Inr col \<Rightarrow>
               if 0 \<le> row \<and> row < int (length o_heatmap) \<and>
                  0 \<le> col \<and> col < int (length (o_heatmap ! nat row))
               then Inr (Some (nat row, nat col))
               else Inl UndefinedBehaviour)
      else Inr None)"

definition point_step ::
  "int \<Rightarrow> int \<Rightarrow> Complex \<Rightarrow> Complex \<Rightarrow> Complex \<Rightarrow> error + heatmap \<times> float \<Rightarrow>
   error + heatmap \<times> float" where
  "point_step imageWidth imageHeight minimum maximum point acc =
     (case acc of Inl e \<Rightarrow> Inl e
      | Inr s \<Rightarrow> accumulate_point imageWidth imageHeight minimum maximum point s)"

definition sample_step ::
  "int \<Rightarrow> int \<Rightarrow> Complex \<Rightarrow> Complex \<Rightarrow> int \<Rightarrow> Complex \<Rightarrow> error + heatmap \<times> float \<Rightarrow>
   error + heatmap \<times> float" where
  "sample_step imageWidth imageHeight minimum maximum nIterations sample acc =
     (case acc of Inl e \<Rightarrow> Inl e
      | Inr s \<Rightarrow>
         (case buddhabrotPoints sample nIterations of
            Inl e \<Rightarrow> Inl e
          | Inr pointsList \<Rightarrow> accumulate_points imageWidth imageHeight minimum maximum pointsList s))"

text \<open>
  A count is a whole number from 0 to \<open>2^24\<close>, where incrementing a \<^verbatim>\<open>float\<close> stops
  changing it. \<open>cells\<close> are the values in a heatmap, and \<open>running_maximum written m\<close> says
  that \<open>m\<close> is the maximum of the cell values \<open>written\<close> so far: they are counts that
  \<open>m\<close> bounds, and \<open>m\<close> is 0 or one of them.
\<close>

fun is_count :: "fp \<Rightarrow> bool" where
  "is_count (Finite q) = (0 \<le> q \<and> q \<le> 2 ^ 24 \<and> of_int \<lfloor>q\<rfloor> = q)"
| "is_count x = False"

definition cells :: "heatmap \<Rightarrow> float set" where
  "cells o_heatmap = set (concat o_heatmap)"

definition running_maximum :: "float set \<Rightarrow> float \<Rightarrow> bool" where
  "running_maximum written o_maxHeatmapValue =
     ((\<forall>v\<in>written. is_count v \<and> fp_le v o_maxHeatmapValue) \<and> is_count o_maxHeatmapValue \<and>
      (o_maxHeatmapValue = Finite 0 \<or> o_maxHeatmapValue \<in> written))"

section \<open>The driver\<close>

text \<open>
  \<^verbatim>\<open>main\<close> up to the colours it hands to the renderer, with its settings as
  parameters (\<open>IMAGE_WIDTH\<close>, \<open>IMAGE_HEIGHT\<close>, the rectangle and the three iteration
  budgets) and the draws of the three generator runs as lists. The result of the
  generation is the three heatmaps and the shared \<^verbatim>\<open>maxHeatmapValue\<close>.
\<close>

definition main_generate ::
  "int \<Rightarrow> int \<Rightarrow> Complex \<Rightarrow> Complex \<Rightarrow> int \<Rightarrow> int \<Rightarrow> int \<Rightarrow>
   Complex list \<Rightarrow> Complex list \<Rightarrow> Complex list \<Rightarrow>
   error + heatmap \<times> heatmap \<times> heatmap \<times> float" where
  "main_generate IMAGE_WIDTH IMAGE_HEIGHT MINIMUM MAXIMUM RED_ITERS BLUE_ITERS GREEN_ITERS
     redSamples blueSamples greenSamples =
     (case AllocHeatmap IMAGE_WIDTH IMAGE_HEIGHT of Inl e \<Rightarrow> Inl e | Inr red \<Rightarrow>
      case AllocHeatmap IMAGE_WIDTH IMAGE_HEIGHT of Inl e \<Rightarrow> Inl e | Inr green \<Rightarrow>
      case AllocHeatmap IMAGE_WIDTH IMAGE_HEIGHT of Inl e \<Rightarrow> Inl e | Inr blue \<Rightarrow>
      case GenerateHeatmap red IMAGE_WIDTH IMAGE_HEIGHT MINIMUM MAXIMUM RED_ITERS
             redSamples (Finite 0) of
        Inl e \<Rightarrow> Inl e
      | Inr (red', max1) \<Rightarrow>
         (case GenerateHeatmap blue IMAGE_WIDTH IMAGE_HEIGHT MINIMUM MAXIMUM BLUE_ITERS
                 blueSamples max1 of
            Inl e \<Rightarrow> Inl e
          | Inr (blue', max2) \<Rightarrow>
             (case GenerateHeatmap green IMAGE_WIDTH IMAGE_HEIGHT MINIMUM MAXIMUM GREEN_ITERS
                     greenSamples max2 of
                Inl e \<Rightarrow> Inl e
              | Inr (green', maxHeatmapValue) \<Rightarrow> Inr (red', green', blue', maxHeatmapValue))))"

text \<open>The loop "scale the heatmap down", on one channel: every cell through the normalizer.\<close>

definition scale_heatmap :: "heatmap \<Rightarrow> float \<Rightarrow> heatmap" where
  "scale_heatmap channel maxHeatmapValue =
     map (map (\<lambda>v. colorFromHeatmap v maxHeatmapValue (int_to_float 1))) channel"

definition main_colors ::
  "int \<Rightarrow> int \<Rightarrow> Complex \<Rightarrow> Complex \<Rightarrow> int \<Rightarrow> int \<Rightarrow> int \<Rightarrow>
   Complex list \<Rightarrow> Complex list \<Rightarrow> Complex list \<Rightarrow> error + heatmap \<times> heatmap \<times> heatmap" where
  "main_colors IMAGE_WIDTH IMAGE_HEIGHT MINIMUM MAXIMUM RED_ITERS BLUE_ITERS GREEN_ITERS
     redSamples blueSamples greenSamples =
     (case main_generate IMAGE_WIDTH IMAGE_HEIGHT MINIMUM MAXIMUM RED_ITERS BLUE_ITERS GREEN_ITERS
             redSamples blueSamples greenSamples of
        Inl e \<Rightarrow> Inl e
      | Inr (red, green, blue, maxHeatmapValue) \<Rightarrow>
         Inr (scale_heatmap red maxHeatmapValue, scale_heatmap green maxHeatmapValue,
              scale_heatmap blue maxHeatmapValue))"

section \<open>Facts about rounding\<close>

lemma two_powi_pos [simp]: "0 < (2::rat) powi k"
  by (simp add: zero_less_power_int)

lemma two_powi_add: "(2::rat) powi (a + b) = 2 powi a * 2 powi b"
  by (simp add: power_int_add)

lemma two_powi_nat: "0 \<le> k \<Longrightarrow> (2::rat) powi k = 2 ^ nat k"
  by (simp add: power_int_def)

lemma two_powi_mono: "a \<le> b \<Longrightarrow> (2::rat) powi a \<le> 2 powi b"
  by (rule power_int_increasing) simp_all

lemma two_powi_strict_mono: "a < b \<Longrightarrow> (2::rat) powi a < 2 powi b"
  by (rule power_int_strict_increasing) simp_all

lemma bitlen_powi:
  assumes "0 < a"
  shows "(2::rat) powi (bitlen a - 1) \<le> of_int a \<and> of_int a < (2::rat) powi (bitlen a)"
proof -
  have l: "1 \<le> bitlen a"
    using assms bitlen_eq_zero_iff [of a] bitlen_nonneg [of a] by linarith
  have "(of_int (2 ^ nat (bitlen a - 1)) :: rat) \<le> of_int a"
    using bitlen_bounds [OF assms] by (simp only: of_int_le_iff)
  moreover have "(of_int a :: rat) < of_int (2 ^ nat (bitlen a))"
    using bitlen_bounds [OF assms] by (simp only: of_int_less_iff)
  ultimately show ?thesis using l by (simp add: two_powi_nat)
qed

lemma ilog2_bounds:
  assumes "q \<noteq> 0"
  shows "2 powi (ilog2 q) \<le> \<bar>q\<bar>" and "\<bar>q\<bar> < 2 powi (ilog2 q + 1)"
proof -
  obtain a b where ab: "quotient_of \<bar>q\<bar> = (a, b)" by (cases "quotient_of \<bar>q\<bar>")
  then have b: "0 < b" and q: "\<bar>q\<bar> = of_int a / of_int b"
    by (simp_all add: quotient_of_denom_pos quotient_of_div)
  have "0 < \<bar>q\<bar>" using assms by simp
  then have a: "0 < a"
    using b by (simp add: q zero_less_divide_iff)
  define k where "k = bitlen a - bitlen b"
  have la: "1 \<le> bitlen a" and lb: "1 \<le> bitlen b"
    using a b bitlen_eq_zero_iff [of a] bitlen_eq_zero_iff [of b] bitlen_nonneg [of a]
      bitlen_nonneg [of b] by linarith+
  have a1: "(2::rat) powi (bitlen a - 1) \<le> of_int a" and a2: "of_int a < (2::rat) powi (bitlen a)"
    using bitlen_powi [OF a] by simp_all
  have b1: "(2::rat) powi (bitlen b - 1) \<le> of_int b" and b2: "of_int b < (2::rat) powi (bitlen b)"
    using bitlen_powi [OF b] by simp_all
  have up: "\<bar>q\<bar> < 2 powi (k + 1)"
  proof -
    have "of_int a < (2::rat) powi (k + 1) * 2 powi (bitlen b - 1)"
      using a2 by (simp add: k_def flip: two_powi_add)
    also have "\<dots> \<le> 2 powi (k + 1) * of_int b"
      using b1 by (simp add: mult_left_mono)
    finally show ?thesis using b by (simp add: q pos_divide_less_eq)
  qed
  have lo: "2 powi (k - 1) \<le> \<bar>q\<bar>"
  proof -
    have "(2::rat) powi (k - 1) * of_int b \<le> 2 powi (k - 1) * 2 powi (bitlen b)"
      using b2 by (simp add: mult_left_mono)
    also have "\<dots> = 2 powi (bitlen a - 1)"
      by (simp add: k_def flip: two_powi_add)
    also have "\<dots> \<le> of_int a" by (rule a1)
    finally show ?thesis using b by (simp add: q pos_le_divide_eq)
  qed
  have il: "ilog2 q = (if 2 powi k \<le> \<bar>q\<bar> then k else k - 1)"
    by (simp add: ilog2_def ab k_def Let_def)
  show "2 powi (ilog2 q) \<le> \<bar>q\<bar>" using lo by (simp add: il)
  show "\<bar>q\<bar> < 2 powi (ilog2 q + 1)" using up by (auto simp: il)
qed

lemma ilog2_unique:
  assumes "2 powi e \<le> \<bar>q\<bar>" and "\<bar>q\<bar> < 2 powi (e + 1)"
  shows "ilog2 q = e"
proof -
  have "0 < \<bar>q\<bar>" using assms(1) two_powi_pos [of e] by linarith
  then have q: "q \<noteq> 0" by auto
  have "2 powi e < (2::rat) powi (ilog2 q + 1)"
    using assms(1) ilog2_bounds(2) [OF q] by simp
  then have 1: "e < ilog2 q + 1"
    using two_powi_mono [of "ilog2 q + 1" e] by (cases "e < ilog2 q + 1") auto
  have "2 powi (ilog2 q) < (2::rat) powi (e + 1)"
    using assms(2) ilog2_bounds(1) [OF q] by simp
  then have 2: "ilog2 q < e + 1"
    using two_powi_mono [of "e + 1" "ilog2 q"] by (cases "ilog2 q < e + 1") auto
  from 1 2 show ?thesis by simp
qed

lemma round_half_even_of_int [simp]: "round_half_even (of_int m) = m"
  by (simp add: round_half_even_def)

lemma rnd_exact:
  assumes "q / 2 powi (max (ilog2 q) (1 - emax) - int p + 1) = of_int m"
    and "\<bar>q\<bar> < 2 powi (emax + 1)"
  shows "rnd p emax q = Finite q"
proof (cases "q = 0")
  case True
  then show ?thesis by (simp add: rnd_def)
next
  case False
  define u :: rat where "u = 2 powi (max (ilog2 q) (1 - emax) - int p + 1)"
  have u: "0 < u" by (simp add: u_def)
  have "q / u = of_int m"
    using assms(1) by (simp only: u_def)
  then have "q = of_int m * u"
    using u by (simp add: field_simps)
  then have "of_int (round_half_even (q / u)) * u = q"
    using u by simp
  then show ?thesis
    using False assms(2) by (simp add: rnd_def Let_def u_def [symmetric])
qed

lemma rnd_eval:
  assumes "2 powi e \<le> \<bar>q\<bar>" and "\<bar>q\<bar> < 2 powi (e + 1)"
  shows "rnd p emax q =
    (let u = 2 powi (max e (1 - emax) - int p + 1);
         r = of_int (round_half_even (q / u)) * u
     in if 2 powi (emax + 1) \<le> \<bar>r\<bar> then (if 0 < q then PInf else NInf) else Finite r)"
proof -
  have "0 < \<bar>q\<bar>" using assms(1) two_powi_pos [of e] by linarith
  then have "q \<noteq> 0" by auto
  then show ?thesis
    by (simp add: rnd_def ilog2_unique [OF assms])
qed

lemma rnd_of_int:
  assumes "\<bar>n\<bar> < 2 ^ p" and "1 - emax \<le> int p - 1" and "int p \<le> emax + 1"
  shows "rnd p emax (of_int n) = Finite (of_int n)"
proof (cases "n = 0")
  case True
  then show ?thesis by (simp add: rnd_def)
next
  case False
  define q :: rat where "q = of_int n"
  have q0: "q \<noteq> 0" using False by (simp add: q_def)
  have q1: "1 \<le> \<bar>q\<bar>" using False by (simp add: q_def flip: of_int_abs)
  have "(of_int \<bar>n\<bar> :: rat) < of_int (2 ^ p)"
    using assms(1) by (simp only: of_int_less_iff)
  then have qp: "\<bar>q\<bar> < 2 powi (int p)"
    by (simp add: q_def)
  define e where "e = max (ilog2 q) (1 - emax)"
  have "(2::rat) powi (ilog2 q) < 2 powi (int p)"
    using ilog2_bounds(1) [OF q0] qp by simp
  then have "ilog2 q < int p"
    using two_powi_mono [of "int p" "ilog2 q"] by (cases "ilog2 q < int p") auto
  then have e: "e \<le> int p - 1" using assms(2) by (simp add: e_def)
  define d where "d = nat (int p - 1 - e)"
  have "q / 2 powi (e - int p + 1) = q * 2 powi (int d)"
    using e by (simp add: d_def power_int_diff power_int_add field_simps flip: power_int_minus)
  also have "\<dots> = of_int (n * 2 ^ d)" by (simp add: q_def)
  finally have 1: "q / 2 powi (max (ilog2 q) (1 - emax) - int p + 1) = of_int (n * 2 ^ d)"
    by (simp add: e_def)
  have "\<bar>q\<bar> < 2 powi (emax + 1)"
    using qp two_powi_mono [OF assms(3)] by simp
  with 1 show ?thesis unfolding q_def by (rule rnd_exact)
qed

lemma rnd64_of_int: "\<bar>n\<bar> < 2 ^ 53 \<Longrightarrow> rnd64 (of_int n) = Finite (of_int n)"
  by (simp add: rnd64_def rnd_of_int)

lemma rnd32_of_int: "\<bar>n\<bar> < 2 ^ 24 \<Longrightarrow> rnd32 (of_int n) = Finite (of_int n)"
  by (simp add: rnd32_def rnd_of_int)

lemma rnd64_numeral [simp]:
  "numeral k < (2::int) ^ 53 \<Longrightarrow> rnd64 (numeral k) = Finite (numeral k)"
  "numeral k < (2::int) ^ 53 \<Longrightarrow> rnd64 (- numeral k) = Finite (- numeral k)"
  "rnd64 0 = Finite 0" "rnd64 1 = Finite 1" "rnd64 (- 1) = Finite (- 1)"
  using rnd64_of_int [of "numeral k"] rnd64_of_int [of "- numeral k"] rnd64_of_int [of 0]
    rnd64_of_int [of 1] rnd64_of_int [of "- 1"] by simp_all

lemma rnd32_numeral [simp]:
  "numeral k < (2::int) ^ 24 \<Longrightarrow> rnd32 (numeral k) = Finite (numeral k)"
  "rnd32 0 = Finite 0" "rnd32 1 = Finite 1"
  using rnd32_of_int [of "numeral k"] rnd32_of_int [of 0] rnd32_of_int [of 1] by simp_all

lemma floor_rat_numeral [simp]:
  "\<lfloor>(numeral a :: rat) / numeral b\<rfloor> = numeral a div numeral b"
  using floor_divide_of_int_eq [of "numeral a" "numeral b", where ?'a = rat] by simp

lemmas fp_ops = add64_def sub64_def mul64_def div64_def add32_def mul32_def div32_def fp_sub_def
  fp_gt_def fp_ge_def


lemma rnd_zero: "rnd p emax 0 = Finite 0"
  by (simp add: rnd_def)

section \<open>Facts about the trajectory sampler\<close>

declare buddhabrot_loop.simps [simp del]

lemma loop_step:
  "n < N \<Longrightarrow> fp_le (sqmagnitude z) (Finite 2) \<Longrightarrow>
   buddhabrot_loop c N n z acc =
   buddhabrot_loop c N (n + 1) (cadd (cmul z z) c) (acc @ [cadd (cmul z z) c])"
  by (subst buddhabrot_loop.simps) simp

lemma loop_exit:
  "\<not> (n < N \<and> fp_le (sqmagnitude z) (Finite 2)) \<Longrightarrow> buddhabrot_loop c N n z acc = (n, acc)"
  by (subst buddhabrot_loop.simps) auto

lemma loop_run:
  "(\<forall>j<k. fp_le (sqmagnitude (orbit c j)) (Finite 2)) \<Longrightarrow> int k \<le> N \<Longrightarrow>
   buddhabrot_loop c N 0 (orbit c 0) [] =
   buddhabrot_loop c N (int k) (orbit c k) (map (orbit c) [1..<Suc k])"
proof (induction k)
  case 0
  then show ?case by simp
next
  case (Suc k)
  have "buddhabrot_loop c N 0 (orbit c 0) [] =
        buddhabrot_loop c N (int k) (orbit c k) (map (orbit c) [1..<Suc k])"
    using Suc by simp
  also have "\<dots> = buddhabrot_loop c N (int k + 1) (cadd (cmul (orbit c k) (orbit c k)) c)
        (map (orbit c) [1..<Suc k] @ [cadd (cmul (orbit c k) (orbit c k)) c])"
    using Suc.prems by (intro loop_step) auto
  finally show ?case by (simp add: add.commute)
qed

lemma sqmagnitude_zero: "sqmagnitude (Complex (Finite 0) (Finite 0)) = Finite 0"
  by (simp add: sqmagnitude_def add64_def mul64_def rnd64_def rnd_zero)

lemma points_escape:
  assumes "\<forall>j<k. fp_le (sqmagnitude (orbit c j)) (Finite 2)"
    and "\<not> fp_le (sqmagnitude (orbit c k)) (Finite 2)" and "int k < B"
  shows "buddhabrotPoints c B = Inr (map (orbit c) [1..<Suc k])"
proof -
  have "buddhabrot_loop c B 0 (orbit c 0) [] =
        buddhabrot_loop c B (int k) (orbit c k) (map (orbit c) [1..<Suc k])"
    using assms by (intro loop_run) auto
  also have "\<dots> = (int k, map (orbit c) [1..<Suc k])"
    using assms(2) by (intro loop_exit) simp
  finally show ?thesis using assms(3) by (simp add: buddhabrotPoints_def)
qed

lemma points_bounded:
  assumes "\<forall>j<nat B. fp_le (sqmagnitude (orbit c j)) (Finite 2)" and "0 \<le> B"
  shows "buddhabrotPoints c B = Inr []"
proof -
  have "buddhabrot_loop c B 0 (orbit c 0) [] =
        buddhabrot_loop c B (int (nat B)) (orbit c (nat B)) (map (orbit c) [1..<Suc (nat B)])"
    using assms by (intro loop_run) auto
  also have "\<dots> = (B, map (orbit c) [1..<Suc (nat B)])"
    using assms(2) by (subst loop_exit) auto
  finally show ?thesis using assms(2) by (simp add: buddhabrotPoints_def)
qed

lemma rnd_not_NaN: "rnd p emax q \<noteq> NaN"
  by (simp add: rnd_def Let_def)

lemma round_half_even_nonneg: "0 \<le> x \<Longrightarrow> 0 \<le> round_half_even x"
  by (simp add: round_half_even_def Let_def)

lemma rnd_nonneg: "0 \<le> q \<Longrightarrow> rnd p emax q = PInf \<or> (\<exists>r\<ge>0. rnd p emax q = Finite r)"
  by (auto simp: rnd_def Let_def round_half_even_nonneg intro!: mult_nonneg_nonneg)

lemma rnd_nonneg_fp: "0 \<le> q \<Longrightarrow> nonneg_fp (rnd p emax q)"
  using rnd_nonneg [of q p emax] by auto

lemma mul64_self: "x \<noteq> NaN \<Longrightarrow> nonneg_fp (mul64 x x)"
  by (cases x) (simp_all add: mul64_def rnd64_def rnd_nonneg_fp)

lemma mul64_self_NaN: "mul64 x x = NaN \<longleftrightarrow> x = NaN"
  by (cases x) (auto simp: mul64_def rnd64_def rnd_not_NaN)

lemma mul64_self_Finite: "mul64 x x = Finite a \<Longrightarrow> \<exists>q. x = Finite q"
  by (cases x) (auto simp: mul64_def)

lemma add64_nonneg: "nonneg_fp a \<Longrightarrow> nonneg_fp b \<Longrightarrow> nonneg_fp (add64 a b)"
  by (cases a; cases b) (simp_all add: add64_def rnd64_def rnd_nonneg_fp)

lemma add64_self_not_NaN: "w \<noteq> NaN \<Longrightarrow> add64 w w \<noteq> NaN"
  by (cases w) (simp_all add: add64_def rnd64_def rnd_not_NaN)

lemma add64_Finite_not_NaN: "w \<noteq> NaN \<Longrightarrow> add64 w (Finite v) \<noteq> NaN"
  by (cases w) (simp_all add: add64_def rnd64_def rnd_not_NaN)

lemma mul64_Finite_not_NaN: "mul64 (Finite x) (Finite y) \<noteq> NaN"
  by (simp add: mul64_def rnd64_def rnd_not_NaN)

lemma sub64_Finite_not_NaN: "sub64 (Finite x) (Finite y) \<noteq> NaN"
  by (simp add: sub64_def fp_sub_def rnd64_def rnd_not_NaN)

lemma nonneg_fp_not_NaN: "nonneg_fp v \<Longrightarrow> v \<noteq> NaN"
  by (cases v) simp_all

lemma sqmagnitude_NaN: "sqmagnitude z = NaN \<longleftrightarrow> c_r z = NaN \<or> c_i z = NaN"
proof
  assume "c_r z = NaN \<or> c_i z = NaN"
  then show "sqmagnitude z = NaN"
    by (cases "mul64 (c_r z) (c_r z)") (auto simp: sqmagnitude_def add64_def mul64_def)
next
  assume *: "sqmagnitude z = NaN"
  show "c_r z = NaN \<or> c_i z = NaN"
  proof (rule ccontr)
    assume "\<not> ?thesis"
    then have "nonneg_fp (sqmagnitude z)"
      by (simp add: sqmagnitude_def add64_nonneg mul64_self)
    with * show False by simp
  qed
qed

lemma step_NaN:
  assumes "c_r z = NaN \<or> c_i z = NaN"
  shows "c_r (cadd (cmul z z) c) = NaN"
proof -
  have "sub64 (mul64 (c_r z) (c_r z)) (mul64 (c_i z) (c_i z)) = NaN"
    using assms
    by (cases "mul64 (c_r z) (c_r z)") (auto simp: sub64_def fp_sub_def mul64_def)
  then show ?thesis by (simp add: cadd_def cmul_def add64_def)
qed

lemma sqmagnitude_step_NaN:
  "sqmagnitude z = NaN \<Longrightarrow> sqmagnitude (cadd (cmul z z) c) = NaN"
  by (simp add: sqmagnitude_NaN step_NaN)

lemma orbit_NaN_later:
  "sqmagnitude (orbit c j) = NaN \<Longrightarrow> j \<le> k \<Longrightarrow> sqmagnitude (orbit c k) = NaN"
  by (induction k) (auto simp: le_Suc_eq sqmagnitude_step_NaN)

lemma fp_gt_not_le: "fp_gt x y \<Longrightarrow> \<not> fp_le x y"
  by (cases x; cases y) (auto simp: fp_gt_def)

lemma fp_gt_not_NaN: "fp_gt x y \<Longrightarrow> x \<noteq> NaN"
  by (cases x; cases y) (auto simp: fp_gt_def)

lemma fp_not_gt_le: "\<not> fp_gt x (Finite y) \<Longrightarrow> x \<noteq> NaN \<Longrightarrow> fp_le x (Finite y)"
  by (cases x) (auto simp: fp_gt_def)

lemma stays_Finite:
  assumes "fp_le (sqmagnitude z) (Finite 2)"
  shows "\<exists>x y a b. z = Complex (Finite x) (Finite y) \<and> mul64 (Finite x) (Finite x) = Finite a
           \<and> mul64 (Finite y) (Finite y) = Finite b"
proof -
  have nn: "c_r z \<noteq> NaN" "c_i z \<noteq> NaN"
    using assms sqmagnitude_NaN [of z] by (auto simp del: sqmagnitude_NaN)
  then have "nonneg_fp (mul64 (c_r z) (c_r z))" "nonneg_fp (mul64 (c_i z) (c_i z))"
    by (simp_all add: mul64_self)
  moreover have "add64 (mul64 (c_r z) (c_r z)) (mul64 (c_i z) (c_i z)) \<noteq> PInf"
    using assms by (auto simp: sqmagnitude_def)
  ultimately obtain a b where ab: "mul64 (c_r z) (c_r z) = Finite a" "mul64 (c_i z) (c_i z) = Finite b"
    by (cases "mul64 (c_r z) (c_r z)"; cases "mul64 (c_i z) (c_i z)") (auto simp: add64_def)
  then obtain x y where "c_r z = Finite x" "c_i z = Finite y"
    using mul64_self_Finite by blast
  with ab show ?thesis by (cases z) auto
qed

lemma step_not_NaN:
  assumes "fp_le (sqmagnitude z) (Finite 2)" and "c = Complex (Finite u) (Finite v)"
  shows "sqmagnitude (cadd (cmul z z) c) \<noteq> NaN"
proof -
  obtain x y a b where z: "z = Complex (Finite x) (Finite y)"
    and a: "mul64 (Finite x) (Finite x) = Finite a" and b: "mul64 (Finite y) (Finite y) = Finite b"
    using stays_Finite [OF assms(1)] by blast
  have 1: "c_r (cadd (cmul z z) c) \<noteq> NaN"
    using a b by (simp add: z assms(2) cadd_def cmul_def add64_Finite_not_NaN sub64_Finite_not_NaN)
  have "mul64 (Finite y) (Finite x) = mul64 (Finite x) (Finite y)"
    by (simp add: mul64_def mult.commute)
  then have 2: "c_i (cadd (cmul z z) c) \<noteq> NaN"
    by (simp add: z assms(2) cadd_def cmul_def add64_Finite_not_NaN add64_self_not_NaN
        mul64_Finite_not_NaN)
  from 1 2 show ?thesis by (simp add: sqmagnitude_NaN)
qed

lemma finite_point:
  "is_finite (c_r c) \<Longrightarrow> is_finite (c_i c) \<Longrightarrow> \<exists>u v. c = Complex (Finite u) (Finite v)"
  by (cases c; cases "c_r c"; cases "c_i c") auto

lemma stays_upto:
  assumes "is_finite (c_r c)" and "is_finite (c_i c)"
    and "\<forall>j\<in>{1..n}. \<not> fp_gt (sqmagnitude (orbit c j)) (Finite 2)"
  shows "j \<le> n \<Longrightarrow> fp_le (sqmagnitude (orbit c j)) (Finite 2)"
proof (induction j)
  case 0
  then show ?case by (simp add: sqmagnitude_zero)
next
  case (Suc j)
  obtain u v where c: "c = Complex (Finite u) (Finite v)"
    using finite_point [OF assms(1,2)] by blast
  have "fp_le (sqmagnitude (orbit c j)) (Finite 2)"
    using Suc by simp
  then have nn: "sqmagnitude (orbit c (Suc j)) \<noteq> NaN"
    using step_not_NaN [OF _ c] by simp
  have "Suc j \<in> {1..n}" using Suc.prems by simp
  with assms(3) have "\<not> fp_gt (sqmagnitude (orbit c (Suc j))) (Finite 2)" by blast
  then show ?case using nn by (rule fp_not_gt_le)
qed

lemma orbit_zero: "orbit (Complex (Finite 0) (Finite 0)) j = Complex (Finite 0) (Finite 0)"
  by (induction j) (simp_all add: cadd_def cmul_def fp_ops)

text \<open>
  C3. A sample point that is a pair of numbers, and whose iteration does not reach a
  squared magnitude above 2.0 in the first \<open>B\<close> rounds, gets the empty trajectory.
\<close>

theorem sampler_bounded_returns_empty:
  assumes "0 < B" and "is_finite (c_r c)" and "is_finite (c_i c)"
    and "\<forall>j\<in>{1..nat B}. \<not> fp_gt (sqmagnitude (orbit c j)) (Finite 2)"
  shows "buddhabrotPoints c B = Inr []"
  using assms(1) stays_upto [OF assms(2,3,4)] by (intro points_bounded) auto

theorem sampler_bounded_returns_empty_witness:
  "(0::int) < 100 \<and> is_finite (c_r (Complex (Finite 0) (Finite 0))) \<and>
   is_finite (c_i (Complex (Finite 0) (Finite 0))) \<and>
   \<not> fp_gt (sqmagnitude (orbit (Complex (Finite 0) (Finite 0)) 1)) (Finite 2) \<and>
   \<not> fp_gt (sqmagnitude (orbit (Complex (Finite 0) (Finite 0)) 100)) (Finite 2) \<and>
   buddhabrotPoints (Complex (Finite 0) (Finite 0)) 100 = Inr []"
proof -
  have h: "\<forall>j\<in>{1..nat 100}.
      \<not> fp_gt (sqmagnitude (orbit (Complex (Finite 0) (Finite 0)) j)) (Finite 2)"
    by (simp add: orbit_zero sqmagnitude_zero fp_gt_def)
  show ?thesis
    using h sampler_bounded_returns_empty [of 100 "Complex (Finite 0) (Finite 0)"]
    by (simp add: orbit_zero sqmagnitude_zero fp_gt_def del: orbit.simps)
qed

lemma stays_before_escape:
  assumes "fp_gt (sqmagnitude (orbit c k)) (Finite 2)"
    and "\<forall>j\<in>{1..<k}. \<not> fp_gt (sqmagnitude (orbit c j)) (Finite 2)"
  shows "\<forall>j<k. fp_le (sqmagnitude (orbit c j)) (Finite 2)"
proof (intro allI impI)
  fix j assume "j < k"
  show "fp_le (sqmagnitude (orbit c j)) (Finite 2)"
  proof (cases "j = 0")
    case True
    then show ?thesis by (simp add: sqmagnitude_zero)
  next
    case False
    have nn: "sqmagnitude (orbit c j) \<noteq> NaN"
      using orbit_NaN_later [of c j k] \<open>j < k\<close> fp_gt_not_NaN [OF assms(1)] by auto
    have "j \<in> {1..<k}" using False \<open>j < k\<close> by simp
    with assms(2) have "\<not> fp_gt (sqmagnitude (orbit c j)) (Finite 2)" by blast
    then show ?thesis using nn by (rule fp_not_gt_le)
  qed
qed

text \<open>
  C2, amended. When the iteration first exceeds 2.0 at round \<open>k\<close> and \<open>k\<close> is below the
  budget \<open>B\<close>, the sampler returns the \<open>k\<close> values of rounds \<open>1\<close> to \<open>k\<close>: the last has
  squared magnitude above 2.0, the earlier ones at most 2.0.
\<close>

theorem sampler_escape_below_budget:
  assumes "0 < k" and "int k < B"
    and "fp_gt (sqmagnitude (orbit c k)) (Finite 2)"
    and "\<forall>j\<in>{1..<k}. \<not> fp_gt (sqmagnitude (orbit c j)) (Finite 2)"
  shows "\<exists>ps. buddhabrotPoints c B = Inr ps \<and> ps = map (orbit c) [1..<Suc k] \<and> length ps = k \<and>
           fp_gt (sqmagnitude (last ps)) (Finite 2) \<and>
           (\<forall>z\<in>set (butlast ps). fp_le (sqmagnitude z) (Finite 2))"
proof -
  have st: "\<forall>j<k. fp_le (sqmagnitude (orbit c j)) (Finite 2)"
    using assms(3,4) by (rule stays_before_escape)
  have "buddhabrotPoints c B = Inr (map (orbit c) [1..<Suc k])"
    using st fp_gt_not_le [OF assms(3)] assms(2) by (rule points_escape)
  moreover have "last (map (orbit c) [1..<Suc k]) = orbit c k"
    using assms(1) by (simp add: last_map)
  moreover have "butlast (map (orbit c) [1..<Suc k]) = map (orbit c) [1..<k]"
    by (simp add: map_butlast [symmetric])
  ultimately show ?thesis using st assms(3) by auto
qed

lemma orbit_one_zero_1: "orbit (Complex (Finite 1) (Finite 0)) 1 = Complex (Finite 1) (Finite 0)"
  by (simp add: cadd_def cmul_def fp_ops)

lemma orbit_one_zero_2: "orbit (Complex (Finite 1) (Finite 0)) 2 = Complex (Finite 2) (Finite 0)"
  by (simp add: numeral_2_eq_2 cadd_def cmul_def fp_ops)

lemma sqmagnitude_one_zero:
  "sqmagnitude (orbit (Complex (Finite 1) (Finite 0)) 0) = Finite 0"
  "sqmagnitude (orbit (Complex (Finite 1) (Finite 0)) 1) = Finite 1"
  "sqmagnitude (orbit (Complex (Finite 1) (Finite 0)) 2) = Finite 4"
  unfolding orbit_one_zero_1 orbit_one_zero_2 by (simp_all add: sqmagnitude_def fp_ops)

lemma upt_1_3: "[1..<Suc 2] = [1, 2]"
  by code_simp

lemma trajectory_one_zero:
  "buddhabrotPoints (Complex (Finite 1) (Finite 0)) 3 =
     Inr [Complex (Finite 1) (Finite 0), Complex (Finite 2) (Finite 0)]"
proof -
  have "\<forall>j<2. fp_le (sqmagnitude (orbit (Complex (Finite 1) (Finite 0)) j)) (Finite 2)"
  proof (intro allI impI)
    fix j :: nat assume "j < 2"
    then have "j = 0 \<or> j = 1" by auto
    then show "fp_le (sqmagnitude (orbit (Complex (Finite 1) (Finite 0)) j)) (Finite 2)"
      using sqmagnitude_one_zero by auto
  qed
  moreover have "\<not> fp_le (sqmagnitude (orbit (Complex (Finite 1) (Finite 0)) 2)) (Finite 2)"
    by (simp only: sqmagnitude_one_zero) simp
  ultimately have "buddhabrotPoints (Complex (Finite 1) (Finite 0)) 3 =
      Inr (map (orbit (Complex (Finite 1) (Finite 0))) [1..<Suc 2])"
    by (rule points_escape) simp
  then show ?thesis
    by (simp only: upt_1_3 list.map orbit_one_zero_1 orbit_one_zero_2)
qed

theorem sampler_escape_below_budget_witness:
  "(0::nat) < 2 \<and> int 2 < 3 \<and>
   fp_gt (sqmagnitude (orbit (Complex (Finite 1) (Finite 0)) 2)) (Finite 2) \<and>
   \<not> fp_gt (sqmagnitude (orbit (Complex (Finite 1) (Finite 0)) 1)) (Finite 2) \<and>
   buddhabrotPoints (Complex (Finite 1) (Finite 0)) 3 =
     Inr [Complex (Finite 1) (Finite 0), Complex (Finite 2) (Finite 0)]"
proof -
  have h1: "fp_gt (sqmagnitude (orbit (Complex (Finite 1) (Finite 0)) 2)) (Finite 2)"
    by (simp only: sqmagnitude_one_zero) (simp add: fp_gt_def)
  have h2: "\<forall>j\<in>{1..<2}.
      \<not> fp_gt (sqmagnitude (orbit (Complex (Finite 1) (Finite 0)) j)) (Finite 2)"
  proof
    fix j :: nat assume "j \<in> {1..<2}"
    then have "j = 1" by auto
    then show "\<not> fp_gt (sqmagnitude (orbit (Complex (Finite 1) (Finite 0)) j)) (Finite 2)"
      by (simp only: sqmagnitude_one_zero) (simp add: fp_gt_def)
  qed
  have h0: "\<not> fp_gt (sqmagnitude (orbit (Complex (Finite 1) (Finite 0)) 1)) (Finite 2)"
    by (simp only: sqmagnitude_one_zero) (simp add: fp_gt_def)
  have "(0::nat) < 2" and "int 2 < 3" by simp_all
  then show ?thesis
    using h0 h1 h2 sampler_escape_below_budget [of 2 3 "Complex (Finite 1) (Finite 0)"]
      trajectory_one_zero by blast
qed

text \<open>
  C2 as stated fails when the escape comes at round \<open>k = B\<close>: for \<open>c = 1\<close> and budget 2
  the iteration first exceeds 2.0 at round 2 (\<open>z = 1\<close>, then \<open>z = 2\<close>), and the sampler
  returns the empty trajectory, not one of length 2.
\<close>

theorem sampler_escape_at_budget_counterexample:
  "(0::int) < 2 \<and> int 2 \<le> 2 \<and>
   \<not> fp_gt (sqmagnitude (orbit (Complex (Finite 1) (Finite 0)) 1)) (Finite 2) \<and>
   fp_gt (sqmagnitude (orbit (Complex (Finite 1) (Finite 0)) 2)) (Finite 2) \<and>
   buddhabrotPoints (Complex (Finite 1) (Finite 0)) 2 = Inr [] \<and>
   length ([] :: Complex list) \<noteq> 2"
proof -
  have "\<forall>j<nat 2. fp_le (sqmagnitude (orbit (Complex (Finite 1) (Finite 0)) j)) (Finite 2)"
  proof (intro allI impI)
    fix j :: nat assume "j < nat 2"
    then have "j = 0 \<or> j = 1" by auto
    then show "fp_le (sqmagnitude (orbit (Complex (Finite 1) (Finite 0)) j)) (Finite 2)"
      using sqmagnitude_one_zero by auto
  qed
  then have "buddhabrotPoints (Complex (Finite 1) (Finite 0)) 2 = Inr []"
    by (rule points_bounded) simp
  moreover have "\<not> fp_gt (sqmagnitude (orbit (Complex (Finite 1) (Finite 0)) 1)) (Finite 2)"
    and "fp_gt (sqmagnitude (orbit (Complex (Finite 1) (Finite 0)) 2)) (Finite 2)"
    by (simp_all only: sqmagnitude_one_zero) (simp_all add: fp_gt_def)
  ultimately show ?thesis by simp
qed

lemma points_nonempty:
  assumes "buddhabrotPoints c B = Inr ps" and "ps \<noteq> []"
  obtains k where "0 < k" and "int k < B" and "ps = map (orbit c) [1..<Suc k]"
    and "\<forall>j<k. fp_le (sqmagnitude (orbit c j)) (Finite 2)"
    and "\<not> fp_le (sqmagnitude (orbit c k)) (Finite 2)"
proof -
  have B: "0 \<le> B"
    using assms(1) by (cases "B < 0") (simp_all add: buddhabrotPoints_def)
  have "\<exists>j<nat B. \<not> fp_le (sqmagnitude (orbit c j)) (Finite 2)"
    using points_bounded [of B c] assms B by auto
  then obtain j where j: "j < nat B" "\<not> fp_le (sqmagnitude (orbit c j)) (Finite 2)" by blast
  define k where "k = (LEAST j. \<not> fp_le (sqmagnitude (orbit c j)) (Finite 2))"
  have k: "\<not> fp_le (sqmagnitude (orbit c k)) (Finite 2)"
    unfolding k_def using j(2) by (rule LeastI)
  have kj: "k \<le> j" unfolding k_def using j(2) by (rule Least_le)
  have before: "\<forall>i<k. fp_le (sqmagnitude (orbit c i)) (Finite 2)"
    using not_less_Least [of _ "\<lambda>j. \<not> fp_le (sqmagnitude (orbit c j)) (Finite 2)"]
    by (auto simp: k_def)
  have "0 < k"
  proof (rule ccontr)
    assume "\<not> 0 < k"
    then have "k = 0" by simp
    with k show False by (simp add: sqmagnitude_zero)
  qed
  moreover have kB: "int k < B" using kj j(1) by linarith
  moreover have "ps = map (orbit c) [1..<Suc k]"
    using points_escape [OF before k kB] assms(1) by simp
  ultimately show ?thesis using that before k by blast
qed

lemma orbit_period: "orbit c j = orbit c 0 \<Longrightarrow> orbit c (j + m) = orbit c m"
  by (induction m) simp_all

lemma add64_zero_left: "is_double x \<Longrightarrow> add64 (Finite 0) x = x"
  by (cases x) (simp_all add: add64_def)

lemma cmul_zero:
  "cmul (Complex (Finite 0) (Finite 0)) (Complex (Finite 0) (Finite 0)) = Complex (Finite 0) (Finite 0)"
  by (simp add: cmul_def fp_ops)

lemma orbit_one: "is_double (c_r c) \<Longrightarrow> is_double (c_i c) \<Longrightarrow> orbit c 1 = c"
  by (cases c) (simp add: cadd_def cmul_zero add64_zero_left)

text \<open>
  C10. A non-empty trajectory starts with the sample point itself, the value of round 1,
  and the starting value 0 is not among its elements.
\<close>

theorem sampler_first_point_is_sample:
  assumes "is_double (c_r c)" and "is_double (c_i c)"
    and "buddhabrotPoints c B = Inr ps" and "ps \<noteq> []"
  shows "hd ps = c \<and> Complex (Finite 0) (Finite 0) \<notin> set ps"
proof -
  obtain k where k: "0 < k" "int k < B" "ps = map (orbit c) [1..<Suc k]"
    "\<forall>j<k. fp_le (sqmagnitude (orbit c j)) (Finite 2)"
    "\<not> fp_le (sqmagnitude (orbit c k)) (Finite 2)"
    using assms(3,4) by (rule points_nonempty)
  have "[1..<Suc k] = 1 # [Suc 1..<Suc k]"
    using k(1) by (intro upt_conv_Cons) simp
  then have "hd ps = orbit c 1" by (simp add: k(3) del: orbit.simps)
  then have hd: "hd ps = c" using orbit_one [OF assms(1,2)] by simp
  have "Complex (Finite 0) (Finite 0) \<notin> set ps"
  proof
    assume "Complex (Finite 0) (Finite 0) \<in> set ps"
    then obtain j where j: "1 \<le> j" "j \<le> k" "orbit c j = orbit c 0"
      by (auto simp: k(3) simp del: orbit.simps(2))
    have "fp_le (sqmagnitude (orbit c j)) (Finite 2)"
      by (simp add: j(3) sqmagnitude_zero)
    with k(5) have "j \<noteq> k" by auto
    with j have jk: "j < k" by simp
    have "orbit c (j + (k - j)) = orbit c (k - j)"
      using j(3) by (rule orbit_period)
    then have "orbit c k = orbit c (k - j)" using jk by simp
    moreover have "fp_le (sqmagnitude (orbit c (k - j))) (Finite 2)"
      using k(4) j(1) jk by simp
    ultimately show False using k(5) by simp
  qed
  with hd show ?thesis by simp
qed

theorem sampler_first_point_is_sample_witness:
  "is_double (c_r (Complex (Finite 1) (Finite 0))) \<and> is_double (c_i (Complex (Finite 1) (Finite 0))) \<and>
   buddhabrotPoints (Complex (Finite 1) (Finite 0)) 3 =
     Inr [Complex (Finite 1) (Finite 0), Complex (Finite 2) (Finite 0)] \<and>
   [Complex (Finite 1) (Finite 0), Complex (Finite 2) (Finite 0)] \<noteq> [] \<and>
   hd [Complex (Finite 1) (Finite 0), Complex (Finite 2) (Finite 0)] = Complex (Finite 1) (Finite 0) \<and>
   Complex (Finite 0) (Finite 0) \<notin> set [Complex (Finite 1) (Finite 0), Complex (Finite 2) (Finite 0)]"
proof -
  have "is_double (Finite 1)" and "is_double (Finite 0)" by simp_all
  then show ?thesis
    using trajectory_one_zero
      sampler_first_point_is_sample [of "Complex (Finite 1) (Finite 0)" 3
        "[Complex (Finite 1) (Finite 0), Complex (Finite 2) (Finite 0)]"]
    by simp
qed

section \<open>The generator at the edge of the rectangle\<close>

lemma trajectory_one_zero_any:
  assumes "2 < B"
  shows "buddhabrotPoints (Complex (Finite 1) (Finite 0)) B =
     Inr [Complex (Finite 1) (Finite 0), Complex (Finite 2) (Finite 0)]"
proof -
  have "\<forall>j<2. fp_le (sqmagnitude (orbit (Complex (Finite 1) (Finite 0)) j)) (Finite 2)"
  proof (intro allI impI)
    fix j :: nat assume "j < 2"
    then have "j = 0 \<or> j = 1" by auto
    then show "fp_le (sqmagnitude (orbit (Complex (Finite 1) (Finite 0)) j)) (Finite 2)"
      using sqmagnitude_one_zero by auto
  qed
  moreover have "\<not> fp_le (sqmagnitude (orbit (Complex (Finite 1) (Finite 0)) 2)) (Finite 2)"
    by (simp only: sqmagnitude_one_zero) simp
  ultimately have "buddhabrotPoints (Complex (Finite 1) (Finite 0)) B =
      Inr (map (orbit (Complex (Finite 1) (Finite 0))) [1..<Suc 2])"
    using assms by (intro points_escape) auto
  then show ?thesis
    by (simp only: upt_1_3 list.map orbit_one_zero_1 orbit_one_zero_2)
qed

lemmas mapper_defs = rowFromReal_def colFromImaginary_def int_to_double_def truncate_def

lemma reference_rows:
  "rowFromReal (Finite 1) (Finite (- 2)) (Finite 2) 200 = Inr 150"
  "rowFromReal (Finite 2) (Finite (- 2)) (Finite 2) 200 = Inr 200"
  "colFromImaginary (Finite 0) (Finite (- 2)) (Finite 2) 200 = Inr 100"
  by (simp_all add: mapper_defs fp_ops)

lemma length_increment_cell [simp]:
  "length (fst (increment_cell s row col)) = length (fst s)"
  by (simp add: increment_cell_def Let_def)

lemma length_row_increment_cell [simp]:
  "length (fst (increment_cell s row col) ! r) = length (fst s ! r)"
proof (cases "row < length (fst s)")
  case True
  then show ?thesis
    by (cases "r = row") (simp_all add: increment_cell_def Let_def)
next
  case False
  then show ?thesis
    by (simp add: increment_cell_def Let_def list_update_beyond)
qed

text \<open>
  C1. In the configuration of \<^verbatim>\<open>main\<close> (rectangle \<open>[-2, 2] \<times> [-2, 2]\<close>, 200 by 200 cells,
  budget 200) the sample \<open>c = 1\<close> has the trajectory \<open>1, 2\<close>. The point \<open>2\<close> lies on the
  maximum of the rectangle and passes the test \<^verbatim>\<open>point.r() <= maximum.r()\<close>; its row is
  \<open>200 = imageHeight\<close>, and the increment indexes a row that was never allocated.
\<close>

theorem boundary_point_indexes_outside_grid:
  "in_view (Complex (Finite (- 2)) (Finite (- 2))) (Complex (Finite 2) (Finite 2))
     (Complex (Finite 2) (Finite 0)) \<and>
   rowFromReal (Finite 2) (Finite (- 2)) (Finite 2) 200 = Inr 200 \<and>
   main_generate 200 200 (Complex (Finite (- 2)) (Finite (- 2))) (Complex (Finite 2) (Finite 2))
     200 800 200 [Complex (Finite 1) (Finite 0)] [] [] = Inl UndefinedBehaviour"
proof -
  have 1: "accumulate_point 200 200 (Complex (Finite (- 2)) (Finite (- 2)))
      (Complex (Finite 2) (Finite 2)) (Complex (Finite 1) (Finite 0))
      (replicate 200 (replicate 200 (Finite 0)), Finite 0) =
      Inr (increment_cell (replicate 200 (replicate 200 (Finite 0)), Finite 0) 150 100)"
    by (simp add: accumulate_point_def in_view_def fp_ge_def reference_rows)
  have 2: "accumulate_point 200 200 (Complex (Finite (- 2)) (Finite (- 2)))
      (Complex (Finite 2) (Finite 2)) (Complex (Finite 2) (Finite 0)) s = Inl UndefinedBehaviour"
    if "length (fst s) = 200" for s
    using that by (simp add: accumulate_point_def in_view_def fp_ge_def reference_rows)
  have "GenerateHeatmap (replicate 200 (replicate 200 (Finite 0))) 200 200
      (Complex (Finite (- 2)) (Finite (- 2))) (Complex (Finite 2) (Finite 2)) 200
      [Complex (Finite 1) (Finite 0)] (Finite 0) = Inl UndefinedBehaviour"
    by (simp add: GenerateHeatmap_def trajectory_one_zero_any 1 2)
  then show ?thesis
    by (simp add: main_generate_def AllocHeatmap_def in_view_def fp_ge_def reference_rows)
qed

section \<open>Facts about the coordinate mapper\<close>

lemma colFromImaginary_rowFromReal: "colFromImaginary = rowFromReal"
  by (intro ext) (simp add: colFromImaginary_def rowFromReal_def)

lemma truncate_bounds: "0 \<le> q \<Longrightarrow> q \<le> of_int n \<Longrightarrow> 0 \<le> truncate q \<and> truncate q \<le> n"
  by (simp add: truncate_def floor_le_iff le_floor_iff)

lemma mapper_without_rounding:
  assumes "0 \<le> n" and "n < 2 ^ 31" and "lo < hi" and "lo \<le> v" and "v \<le> hi"
    and "is_double (Finite (v - lo))" and "is_double (Finite (hi - lo))"
    and "is_double (Finite (of_int n / (hi - lo)))"
    and "is_double (Finite ((v - lo) * (of_int n / (hi - lo))))"
  shows "rowFromReal (Finite v) (Finite lo) (Finite hi) n =
         Inr (truncate ((v - lo) * of_int n / (hi - lo)))"
proof -
  define x where "x = (v - lo) * of_int n / (hi - lo)"
  have n: "int_to_double n = Finite (of_int n)"
    using assms(1,2) by (simp add: int_to_double_def rnd64_of_int)
  have t: "(v - lo) / (hi - lo) \<le> 1" "0 \<le> (v - lo) / (hi - lo)"
    using assms(3,4,5) by simp_all
  have x: "x = of_int n * ((v - lo) / (hi - lo))"
    by (simp add: x_def)
  have "0 \<le> x"
    unfolding x using assms(1) t(2) by (intro mult_nonneg_nonneg) simp_all
  moreover have "x \<le> of_int n"
    unfolding x using assms(1) t by (intro mult_right_le_one_le) simp_all
  ultimately have "0 \<le> truncate x" "truncate x < 2 ^ 31"
    using truncate_bounds [of x n] assms(2) by simp_all
  moreover have "rowFromReal (Finite v) (Finite lo) (Finite hi) n = double_to_int (Finite x)"
    using assms(3,6,7,8,9) by (simp add: rowFromReal_def n fp_ops x_def)
  ultimately show ?thesis by (simp add: x_def)
qed

text \<open>
  C8 as stated fails where the scale factor rounds: for the rectangle side \<open>[0, 7]\<close> and 61
  cells the scale is the double nearest to \<open>61 / 7\<close>, which lies below it; 7 times that
  rounds to \<open>60.99999999999999\<close>, and the value \<open>maxR = 7\<close> gets the index 60, not
  \<open>imageHeight = 61\<close>, which is what \<open>(7 - 0) * 61 / (7 - 0)\<close> truncates to.
\<close>

lemma rnd64_61_7: "rnd64 (61 / 7) = Finite (4905706736957147 / 562949953421312)"
  unfolding rnd64_def
  by (subst rnd_eval [where e = 3]) (simp_all add: round_half_even_def Let_def power_int_minus)

lemma rnd64_7_times: "rnd64 (34339947158700029 / 562949953421312) =
    Finite (8584986789675007 / 140737488355328)"
  unfolding rnd64_def
  by (subst rnd_eval [where e = 5]) (simp_all add: round_half_even_def Let_def power_int_minus)

theorem mapper_at_maximum_counterexample:
  "(0::rat) < 7 \<and> rowFromReal (Finite 7) (Finite 0) (Finite 7) 61 = Inr 60 \<and>
   colFromImaginary (Finite 7) (Finite 0) (Finite 7) 61 = Inr 60 \<and>
   truncate ((7 - 0) * of_int 61 / (7 - 0)) = 61"
  by (simp add: colFromImaginary_rowFromReal rowFromReal_def int_to_double_def fp_ops
      rnd64_61_7 rnd64_7_times truncate_def)

text \<open>
  C9 as stated fails where an operation of the mapper overflows: on \<open>[-2^1023, 2^1023]\<close>
  with 2 cells the centre of cell 1 is \<open>2^1022\<close>, a double; the span \<open>2^1024\<close> overflows to
  \<open>+\<infinity>\<close>, the scale factor \<open>2 / \<infinity>\<close> is 0, and the centre is mapped to cell 0.
\<close>

lemma rnd64_overflow: "rnd64 (2 ^ 1024) = PInf"
  unfolding rnd64_def
  by (subst rnd_eval [where e = 1024]) (simp_all add: round_half_even_def Let_def)

lemma rnd64_huge:
  "rnd64 (2 ^ 1023) = Finite (2 ^ 1023)" "rnd64 (- (2 ^ 1023)) = Finite (- (2 ^ 1023))"
  "rnd64 (2 ^ 1022) = Finite (2 ^ 1022)" "rnd64 (3 * 2 ^ 1022) = Finite (3 * 2 ^ 1022)"
  unfolding rnd64_def
  by (subst rnd_eval [where e = 1023], simp, simp, simp add: round_half_even_def Let_def,
      subst rnd_eval [where e = 1023], simp, simp, simp add: round_half_even_def Let_def,
      subst rnd_eval [where e = 1022], simp, simp, simp add: round_half_even_def Let_def,
      subst rnd_eval [where e = 1023], simp, simp, simp add: round_half_even_def Let_def)

theorem mapper_round_trip_counterexample:
  "(- (2 ^ 1023) :: rat) < 2 ^ 1023 \<and>
   is_double (Finite (- (2 ^ 1023))) \<and> is_double (Finite (2 ^ 1023)) \<and>
   is_double (Finite (2 ^ 1022)) \<and>
   (2 ^ 1022 :: rat) = - (2 ^ 1023) + (of_int 1 + 1 / 2) * (2 ^ 1023 - (- (2 ^ 1023))) / of_int 2 \<and>
   rowFromReal (Finite (2 ^ 1022)) (Finite (- (2 ^ 1023))) (Finite (2 ^ 1023)) 2 = Inr 0 \<and>
   colFromImaginary (Finite (2 ^ 1022)) (Finite (- (2 ^ 1023))) (Finite (2 ^ 1023)) 2 = Inr 0 \<and>
   (0::int) \<noteq> 1"
proof -
  have s: "sub64 (Finite (2 ^ 1023)) (Finite (- (2 ^ 1023))) = PInf"
    using rnd64_overflow by (simp add: fp_ops)
  have d: "sub64 (Finite (2 ^ 1022)) (Finite (- (2 ^ 1023))) = Finite (3 * 2 ^ 1022)"
    using rnd64_huge(4) by (simp add: fp_ops)
  have "rowFromReal (Finite (2 ^ 1022)) (Finite (- (2 ^ 1023))) (Finite (2 ^ 1023)) 2 = Inr 0"
    unfolding rowFromReal_def s d by (simp add: int_to_double_def div64_def mul64_def truncate_def)
  moreover have "is_double (Finite (- (2 ^ 1023)))" "is_double (Finite (2 ^ 1023))"
    "is_double (Finite (2 ^ 1022))"
    using rnd64_huge by simp_all
  ultimately show ?thesis by (simp add: colFromImaginary_rowFromReal)
qed

section \<open>The order of the samples\<close>

lemma accumulate_point_target:
  "accumulate_point W H mn mx p s =
     (case target W H mn mx p (fst s) of
        Inl e \<Rightarrow> Inl e
      | Inr None \<Rightarrow> Inr s
      | Inr (Some (r, c)) \<Rightarrow> Inr (increment_cell s r c))"
  by (simp add: accumulate_point_def target_def split: sum.splits)

lemma double_to_int_error: "double_to_int x = Inl e \<Longrightarrow> e = UndefinedBehaviour"
  by (cases x) (auto split: if_splits)

lemma target_error: "target W H mn mx p hm = Inl e \<Longrightarrow> e = UndefinedBehaviour"
  by (auto simp: target_def rowFromReal_def colFromImaginary_def
      split: if_splits sum.splits dest: double_to_int_error)

lemma target_Some:
  "target W H mn mx p hm = Inr (Some (r, c)) \<Longrightarrow> r < length hm \<and> c < length (hm ! r)"
  by (auto simp: target_def split: if_splits sum.splits)

lemma target_shape:
  assumes "map length hm = map length hm'"
  shows "target W H mn mx p hm = target W H mn mx p hm'"
proof -
  have l: "length hm = length hm'"
    using assms by (metis length_map)
  have "length (hm ! i) = length (hm' ! i)" if "i < length hm" for i
    using that assms l by (metis nth_map)
  then show ?thesis
    by (auto simp: target_def l split: sum.splits)
qed

lemma shape_increment_cell [simp]:
  "map length (fst (increment_cell s r c)) = map length (fst s)"
  by (rule nth_equalityI) simp_all

lemma target_increment_cell [simp]:
  "target W H mn mx p (fst (increment_cell s r c)) = target W H mn mx p (fst s)"
  by (rule target_shape) simp

text \<open>The running maximum does not depend on the order in which two values arrive.\<close>

lemma max_step_commute:
  "(if fp_gt v (if fp_gt w m then w else m) then v else (if fp_gt w m then w else m)) =
   (if fp_gt w (if fp_gt v m then v else m) then w else (if fp_gt v m then v else m))"
  by (cases v; cases w; cases m) (auto simp: fp_gt_def)

lemma increment_cell_commute:
  assumes "r < length (fst s)" and "c < length (fst s ! r)"
    and "r' < length (fst s)" and "c' < length (fst s ! r')"
  shows "increment_cell (increment_cell s r c) r' c' = increment_cell (increment_cell s r' c') r c"
proof (cases "r = r' \<and> c = c'")
  case True
  then show ?thesis by simp
next
  case False
  obtain hm m where s: "s = (hm, m)" by (cases s)
  define v where "v = add32 (hm ! r ! c) (Finite 1)"
  define v' where "v' = add32 (hm ! r' ! c') (Finite 1)"
  define step where "step x y = (if fp_gt x y then x else y)" for x y
  define hm1 where "hm1 = hm[r := (hm ! r)[c := v]]"
  define hm2 where "hm2 = hm[r' := (hm ! r')[c' := v']]"
  have 1: "increment_cell s r c = (hm1, step v m)"
    by (simp add: increment_cell_def s v_def Let_def step_def hm1_def)
  have 2: "increment_cell s r' c' = (hm2, step v' m)"
    by (simp add: increment_cell_def s v'_def Let_def step_def hm2_def)
  have a: "hm1 ! r' ! c' = hm ! r' ! c'"
    using False assms by (cases "r = r'") (simp_all add: s hm1_def)
  have b: "hm2 ! r ! c = hm ! r ! c"
    using False assms by (cases "r = r'") (simp_all add: s hm2_def)
  have 3: "increment_cell (hm1, step v m) r' c' =
           (hm1[r' := (hm1 ! r')[c' := v']], step v' (step v m))"
    by (simp add: increment_cell_def Let_def a v'_def step_def)
  have 4: "increment_cell (hm2, step v' m) r c =
           (hm2[r := (hm2 ! r)[c := v]], step v (step v' m))"
    by (simp add: increment_cell_def Let_def b v_def step_def)
  have grid: "hm1[r' := (hm1 ! r')[c' := v']] = hm2[r := (hm2 ! r)[c := v]]"
  proof (cases "r = r'")
    case True
    then have "c \<noteq> c'" using False by simp
    then show ?thesis
      using assms True by (simp add: s hm1_def hm2_def list_update_swap)
  next
    case rr: False
    then show ?thesis
      using assms by (simp add: s hm1_def hm2_def list_update_swap [of r r'])
  qed
  have "step v' (step v m) = step v (step v' m)"
    unfolding step_def by (rule max_step_commute)
  then show ?thesis
    by (simp only: 1 2 3 4 grid)
qed

lemma point_step_Inr:
  "point_step W H mn mx p (Inr s) =
     (case target W H mn mx p (fst s) of
        Inl e \<Rightarrow> Inl UndefinedBehaviour
      | Inr None \<Rightarrow> Inr s
      | Inr (Some (r, c)) \<Rightarrow> Inr (increment_cell s r c))"
  by (auto simp: point_step_def accumulate_point_target split: sum.splits dest: target_error)

lemma point_step_Inl [simp]: "point_step W H mn mx p (Inl e) = Inl e"
  by (simp add: point_step_def)

lemma point_step_shape:
  "point_step W H mn mx q (Inr s) = Inr s' \<Longrightarrow> map length (fst s') = map length (fst s)"
  by (auto simp: point_step_Inr split: sum.splits option.splits)

lemma point_step_failure:
  "point_step W H mn mx q (Inr s) = Inl e \<Longrightarrow> e = UndefinedBehaviour"
  by (auto simp: point_step_Inr split: sum.splits option.splits)

lemma point_step_after_failure:
  assumes "target W H mn mx p (fst s) = Inl e"
  shows "point_step W H mn mx p (point_step W H mn mx q (Inr s)) = Inl UndefinedBehaviour"
proof (cases "point_step W H mn mx q (Inr s)")
  case (Inl e')
  then show ?thesis using point_step_failure [OF Inl] by simp
next
  case (Inr s')
  have "target W H mn mx p (fst s') = target W H mn mx p (fst s)"
    using point_step_shape [OF Inr] by (rule target_shape)
  then have "point_step W H mn mx p (Inr s') = Inl UndefinedBehaviour"
    using assms by (simp add: point_step_Inr)
  then show ?thesis by (simp only: Inr)
qed

lemma point_step_commute:
  "point_step W H mn mx p (point_step W H mn mx q acc) =
   point_step W H mn mx q (point_step W H mn mx p acc)"
proof (cases acc)
  case (Inl e)
  then show ?thesis by simp
next
  case (Inr s)
  show ?thesis
  proof (cases "target W H mn mx p (fst s)")
    case pe: (Inl e)
    then have "point_step W H mn mx p (Inr s) = Inl UndefinedBehaviour"
      by (simp add: point_step_Inr)
    then show ?thesis
      using point_step_after_failure [OF pe] by (simp add: Inr)
  next
    case pt: (Inr a)
    show ?thesis
    proof (cases "target W H mn mx q (fst s)")
      case qe: (Inl e)
      then have "point_step W H mn mx q (Inr s) = Inl UndefinedBehaviour"
        by (simp add: point_step_Inr)
      then show ?thesis
        using point_step_after_failure [OF qe] by (simp add: Inr)
    next
      case qt: (Inr b)
      show ?thesis
      proof (cases "a = None \<or> b = None")
        case True
        then show ?thesis
          using pt qt by (auto simp: Inr point_step_Inr split: option.splits)
      next
        case False
        then obtain r c r' c' where ab: "a = Some (r, c)" "b = Some (r', c')" by auto
        have "increment_cell (increment_cell s r' c') r c = increment_cell (increment_cell s r c) r' c'"
          using target_Some [OF pt [unfolded ab]] target_Some [OF qt [unfolded ab]]
          by (intro increment_cell_commute) simp_all
        then show ?thesis
          using pt qt by (simp add: Inr ab point_step_Inr)
      qed
    qed
  qed
qed

lemma accumulate_points_fold:
  "accumulate_points W H mn mx ps s = fold (point_step W H mn mx) ps (Inr s)"
proof -
  have e: "fold (point_step W H mn mx) ps (Inl e) = Inl e" for e ps
    by (induction ps) simp_all
  show ?thesis
    by (induction ps arbitrary: s) (simp_all add: point_step_def e split: sum.splits)
qed

lemma generate_samples_fold:
  "generate_samples W H mn mx n cs s = fold (sample_step W H mn mx n) cs (Inr s)"
proof -
  have e: "fold (sample_step W H mn mx n) cs (Inl e) = Inl e" for e cs
    by (induction cs) (simp_all add: sample_step_def)
  show ?thesis
    by (induction cs arbitrary: s) (simp_all add: sample_step_def e split: sum.splits)
qed

lemma fold_point_step_commute:
  "fold (point_step W H mn mx) ps (fold (point_step W H mn mx) qs acc) =
   fold (point_step W H mn mx) qs (fold (point_step W H mn mx) ps acc)"
proof -
  have "fold (point_step W H mn mx) (qs @ ps) = fold (point_step W H mn mx) (ps @ qs)"
    by (rule fold_multiset_equiv) (auto simp: fun_eq_iff point_step_commute)
  then show ?thesis by (simp add: fun_eq_iff)
qed

lemma buddhabrotPoints_Inr: "0 \<le> n \<Longrightarrow> \<exists>ps. buddhabrotPoints c n = Inr ps"
  by (cases "buddhabrot_loop c n 0 (Complex (Finite 0) (Finite 0)) []")
    (simp add: buddhabrotPoints_def)

lemma sample_step_commute:
  "sample_step W H mn mx n c (sample_step W H mn mx n d acc) =
   sample_step W H mn mx n d (sample_step W H mn mx n c acc)"
proof (cases "n < 0")
  case True
  then show ?thesis
    by (cases acc) (simp_all add: sample_step_def buddhabrotPoints_def)
next
  case False
  obtain ps where ps: "buddhabrotPoints c n = Inr ps"
    using False buddhabrotPoints_Inr [of n c] by auto
  obtain qs where qs: "buddhabrotPoints d n = Inr qs"
    using False buddhabrotPoints_Inr [of n d] by auto
  have e: "fold (point_step W H mn mx) xs (Inl e) = Inl e" for e xs
    by (induction xs) simp_all
  have c: "sample_step W H mn mx n c a = fold (point_step W H mn mx) ps a" for a
    by (cases a) (simp_all add: sample_step_def ps accumulate_points_fold e)
  have d: "sample_step W H mn mx n d a = fold (point_step W H mn mx) qs a" for a
    by (cases a) (simp_all add: sample_step_def qs accumulate_points_fold e)
  show ?thesis
    unfolding c d by (rule fold_point_step_commute)
qed

text \<open>
  C7. The generator run on a permutation of the same draws ends with the same heatmap
  and the same \<^verbatim>\<open>maxHeatmapValue\<close> (and runs into undefined behaviour for the one order
  exactly when it does for the other).
\<close>

theorem generator_order_independent:
  assumes "mset samples = mset samples'"
  shows "GenerateHeatmap o_heatmap imageWidth imageHeight minimum maximum nIterations samples
           o_maxHeatmapValue =
         GenerateHeatmap o_heatmap imageWidth imageHeight minimum maximum nIterations samples'
           o_maxHeatmapValue"
proof -
  have "fold (sample_step imageWidth imageHeight minimum maximum nIterations) samples =
        fold (sample_step imageWidth imageHeight minimum maximum nIterations) samples'"
    using assms by (intro fold_multiset_equiv) (auto simp: fun_eq_iff sample_step_commute)
  then show ?thesis
    by (simp add: GenerateHeatmap_def generate_samples_fold)
qed

theorem generator_order_independent_witness:
  "mset [Complex (Finite (- 2)) (Finite 0), Complex (Finite 0) (Finite (- 2))] =
   mset [Complex (Finite 0) (Finite (- 2)), Complex (Finite (- 2)) (Finite 0)] \<and>
   GenerateHeatmap (replicate 4 (replicate 4 (Finite 0))) 4 4
     (Complex (Finite (- 2)) (Finite (- 2))) (Complex (Finite 2) (Finite 2)) 3
     [Complex (Finite (- 2)) (Finite 0), Complex (Finite 0) (Finite (- 2))] (Finite 0) =
   GenerateHeatmap (replicate 4 (replicate 4 (Finite 0))) 4 4
     (Complex (Finite (- 2)) (Finite (- 2))) (Complex (Finite 2) (Finite 2)) 3
     [Complex (Finite 0) (Finite (- 2)), Complex (Finite (- 2)) (Finite 0)] (Finite 0)"
proof -
  have h: "mset [Complex (Finite (- 2)) (Finite 0), Complex (Finite 0) (Finite (- 2))] =
    mset [Complex (Finite 0) (Finite (- 2)), Complex (Finite (- 2)) (Finite 0)]"
    by simp
  show ?thesis
    using h generator_order_independent [OF h] by blast
qed

section \<open>The running maximum\<close>

lemma rnd32_saturation:
  "rnd32 16777216 = Finite 16777216" "rnd32 16777217 = Finite 16777216"
  unfolding rnd32_def
  by (subst rnd_eval [where e = 24], simp, simp, simp add: round_half_even_def Let_def)+

lemma is_countE:
  assumes "is_count v"
  obtains n where "v = Finite (of_int n)" and "0 \<le> n" and "n \<le> 2 ^ 24"
proof -
  obtain q where q: "v = Finite q" "0 \<le> q" "q \<le> 2 ^ 24" "of_int \<lfloor>q\<rfloor> = q"
    using assms by (cases v) auto
  have "0 \<le> \<lfloor>q\<rfloor>" using q(2) by simp
  moreover have "\<lfloor>q\<rfloor> \<le> 2 ^ 24" using q(3) by (simp add: floor_le_iff)
  ultimately show ?thesis using that [of "\<lfloor>q\<rfloor>"] q by simp
qed

lemma is_count_of_int: "0 \<le> n \<Longrightarrow> n \<le> 2 ^ 24 \<Longrightarrow> is_count (Finite (of_int n))"
proof -
  assume "0 \<le> n" "n \<le> 2 ^ 24"
  then have "(of_int n :: rat) \<le> of_int (2 ^ 24)" by (simp only: of_int_le_iff)
  then show ?thesis using \<open>0 \<le> n\<close> by simp
qed

lemma add32_count:
  assumes "is_count v"
  shows "is_count (add32 v (Finite 1)) \<and> fp_le v (add32 v (Finite 1))"
proof -
  obtain n where n: "v = Finite (of_int n)" "0 \<le> n" "n \<le> 2 ^ 24"
    using assms by (rule is_countE)
  have a: "add32 v (Finite 1) = rnd32 (of_int (n + 1))"
    by (simp add: n add32_def)
  consider "n + 1 < 2 ^ 24" | "n + 1 = 2 ^ 24" | "n = 2 ^ 24"
    using n(3) by linarith
  then show ?thesis
  proof cases
    case 1
    then have "rnd32 (of_int (n + 1)) = Finite (of_int (n + 1))"
      using n(2) by (intro rnd32_of_int) simp
    moreover have "is_count (Finite (of_int (n + 1)))"
      using n(2) 1 by (intro is_count_of_int) simp_all
    ultimately show ?thesis unfolding a by (simp add: n)
  next
    case 2
    then have "rnd32 (of_int (n + 1)) = Finite 16777216"
      using rnd32_saturation(1) by simp
    moreover have "(of_int n :: rat) \<le> of_int (2 ^ 24)"
      using n(3) by (simp only: of_int_le_iff)
    ultimately show ?thesis unfolding a by (simp add: n)
  next
    case 3
    then have "rnd32 (of_int (n + 1)) = Finite 16777216"
      using rnd32_saturation(2) by simp
    then show ?thesis unfolding a by (simp add: n 3)
  qed
qed

lemma count_order:
  assumes "is_count x" and "is_count y"
  shows "fp_le x x" and "\<not> fp_gt x y \<Longrightarrow> fp_le x y" and "fp_gt x y \<Longrightarrow> fp_le y x"
    and "fp_le x y \<Longrightarrow> fp_le y x \<Longrightarrow> x = y"
  using assms by (cases x; cases y; auto simp: fp_gt_def)+

lemma fp_le_trans: "fp_le x y \<Longrightarrow> fp_le y z \<Longrightarrow> fp_le x z"
  by (cases x; cases y; cases z) auto

lemma cells_nth: "x \<in> cells hm \<longleftrightarrow> (\<exists>i<length hm. \<exists>j<length (hm ! i). hm ! i ! j = x)"
proof
  assume "x \<in> cells hm"
  then obtain row where "row \<in> set hm" "x \<in> set row"
    by (auto simp: cells_def)
  then obtain i j where "i < length hm" "hm ! i = row" "j < length row" "row ! j = x"
    by (metis in_set_conv_nth)
  then show "\<exists>i<length hm. \<exists>j<length (hm ! i). hm ! i ! j = x" by auto
next
  assume "\<exists>i<length hm. \<exists>j<length (hm ! i). hm ! i ! j = x"
  then obtain i j where "i < length hm" "j < length (hm ! i)" "hm ! i ! j = x" by blast
  then have "hm ! i \<in> set hm" "x \<in> set (hm ! i)"
    using nth_mem by blast+
  then show "x \<in> cells hm" by (auto simp: cells_def)
qed

lemma cells_update:
  assumes "r < length hm" and "c < length (hm ! r)"
  shows "cells (hm[r := (hm ! r)[c := v]]) \<subseteq> insert v (cells hm)"
    and "v \<in> cells (hm[r := (hm ! r)[c := v]])"
    and "x \<in> cells hm \<Longrightarrow> x \<noteq> hm ! r ! c \<Longrightarrow> x \<in> cells (hm[r := (hm ! r)[c := v]])"
proof -
  show "cells (hm[r := (hm ! r)[c := v]]) \<subseteq> insert v (cells hm)"
  proof
    fix y assume "y \<in> cells (hm[r := (hm ! r)[c := v]])"
    then obtain i j where ij: "i < length hm" "j < length (hm[r := (hm ! r)[c := v]] ! i)"
      "hm[r := (hm ! r)[c := v]] ! i ! j = y"
      by (auto simp: cells_nth)
    show "y \<in> insert v (cells hm)"
    proof (cases "i = r \<and> j = c")
      case True
      then show ?thesis using ij assms by simp
    next
      case False
      then have "hm ! i ! j = y" "j < length (hm ! i)"
        using ij assms by (cases "i = r"; simp)+
      then show ?thesis using ij(1) by (auto simp: cells_nth)
    qed
  qed
  have "r < length (hm[r := (hm ! r)[c := v]])" "c < length (hm[r := (hm ! r)[c := v]] ! r)"
    "hm[r := (hm ! r)[c := v]] ! r ! c = v"
    using assms by simp_all
  then show "v \<in> cells (hm[r := (hm ! r)[c := v]])"
    unfolding cells_nth by blast
  show "x \<in> cells (hm[r := (hm ! r)[c := v]])" if xin: "x \<in> cells hm" and xne: "x \<noteq> hm ! r ! c"
  proof -
    obtain i j where ij: "i < length hm" "j < length (hm ! i)" "hm ! i ! j = x"
      using xin unfolding cells_nth by blast
    then have "\<not> (i = r \<and> j = c)" using xne by auto
    then have "hm[r := (hm ! r)[c := v]] ! i ! j = x" "j < length (hm[r := (hm ! r)[c := v]] ! i)"
      using ij assms by (cases "i = r"; simp)+
    then show ?thesis using ij(1) by (auto simp: cells_nth)
  qed
qed

lemma increment_cell_running_maximum:
  assumes inv: "running_maximum (others \<union> cells (fst s)) (snd s)"
    and r: "r < length (fst s)" and c: "c < length (fst s ! r)"
  shows "running_maximum (others \<union> cells (fst (increment_cell s r c))) (snd (increment_cell s r c))"
proof -
  obtain hm m where s: "s = (hm, m)" by (cases s)
  define u where "u = hm ! r ! c"
  define v where "v = add32 u (Finite 1)"
  define m' where "m' = (if fp_gt v m then v else m)"
  define hm' where "hm' = hm[r := (hm ! r)[c := v]]"
  have inc: "increment_cell s r c = (hm', m')"
    by (simp add: increment_cell_def s Let_def u_def v_def m'_def hm'_def)
  have old: "\<And>x. x \<in> others \<union> cells hm \<Longrightarrow> is_count x \<and> fp_le x m"
    and m: "is_count m" and att: "m = Finite 0 \<or> m \<in> others \<union> cells hm"
    using inv by (auto simp: running_maximum_def s)
  have "u \<in> cells hm"
    using r c by (auto simp: cells_nth u_def s)
  then have u: "is_count u" "fp_le u m" using old by auto
  have v: "is_count v" "fp_le u v"
    using add32_count [OF u(1)] by (simp_all add: v_def)
  have m': "is_count m'" using m v(1) by (simp add: m'_def)
  have mm': "fp_le m m'"
  proof (cases "fp_gt v m")
    case True
    then show ?thesis using count_order(3) [OF v(1) m] by (simp add: m'_def)
  next
    case False
    then show ?thesis using count_order(1) [OF m m] by (simp add: m'_def)
  qed
  have vm': "fp_le v m'"
  proof (cases "fp_gt v m")
    case True
    then show ?thesis using count_order(1) [OF v(1) v(1)] by (simp add: m'_def)
  next
    case False
    then show ?thesis using count_order(2) [OF v(1) m] by (simp add: m'_def)
  qed
  have sub: "cells hm' \<subseteq> insert v (cells hm)" and vin: "v \<in> cells hm'"
    and keep: "\<And>x. x \<in> cells hm \<Longrightarrow> x \<noteq> u \<Longrightarrow> x \<in> cells hm'"
    using cells_update [where r = r and hm = hm and c = c and v = v] r c
    by (simp_all add: hm'_def u_def s)
  have all: "is_count x \<and> fp_le x m'" if "x \<in> others \<union> cells hm'" for x
  proof (cases "x = v")
    case True
    then show ?thesis using v(1) vm' by simp
  next
    case False
    then have "x \<in> others \<union> cells hm" using that sub by auto
    then show ?thesis using old mm' fp_le_trans by blast
  qed
  have "m' = Finite 0 \<or> m' \<in> others \<union> cells hm'"
  proof (cases "fp_gt v m")
    case True
    then show ?thesis using vin by (simp add: m'_def)
  next
    case False
    then have eq: "m' = m" by (simp add: m'_def)
    have vm: "fp_le v m" using count_order(2) [OF v(1) m False] .
    show ?thesis
    proof (cases "m = u")
      case True
      then have "v = m" using count_order(4) [OF v(1) m vm] v(2) by simp
      then show ?thesis using vin eq by simp
    next
      case False
      then show ?thesis using att keep eq by auto
    qed
  qed
  with all m' show ?thesis
    by (simp add: inc running_maximum_def)
qed

lemma accumulate_point_running_maximum:
  assumes "running_maximum (others \<union> cells (fst s)) (snd s)"
    and "accumulate_point W H mn mx p s = Inr s'"
  shows "running_maximum (others \<union> cells (fst s')) (snd s')"
proof (cases "target W H mn mx p (fst s)")
  case (Inl e)
  then show ?thesis using assms(2) by (simp add: accumulate_point_target)
next
  case (Inr a)
  show ?thesis
  proof (cases a)
    case None
    then show ?thesis using assms Inr by (simp add: accumulate_point_target)
  next
    case (Some rc)
    obtain r c where rc: "rc = (r, c)" by (cases rc)
    have "s' = increment_cell s r c"
      using assms(2) Inr Some rc by (simp add: accumulate_point_target)
    then show ?thesis
      using increment_cell_running_maximum [OF assms(1)] target_Some [OF Inr [unfolded Some rc]]
      by simp
  qed
qed

lemma accumulate_point_shape:
  "accumulate_point W H mn mx p s = Inr s' \<Longrightarrow> map length (fst s') = map length (fst s)"
  by (auto simp: accumulate_point_target split: sum.splits option.splits)

lemma accumulate_points_running_maximum:
  "running_maximum (others \<union> cells (fst s)) (snd s) \<Longrightarrow>
   accumulate_points W H mn mx ps s = Inr s' \<Longrightarrow>
   running_maximum (others \<union> cells (fst s')) (snd s') \<and> map length (fst s') = map length (fst s)"
proof (induction ps arbitrary: s)
  case Nil
  then show ?case by simp
next
  case (Cons p ps)
  then obtain s1 where s1: "accumulate_point W H mn mx p s = Inr s1"
    and rest: "accumulate_points W H mn mx ps s1 = Inr s'"
    by (auto split: sum.splits)
  have "running_maximum (others \<union> cells (fst s1)) (snd s1)"
    using Cons.prems(1) s1 by (rule accumulate_point_running_maximum)
  then show ?case
    using Cons.IH [OF _ rest] accumulate_point_shape [OF s1] by simp
qed

lemma GenerateHeatmap_running_maximum:
  "running_maximum (others \<union> cells hm) m \<Longrightarrow>
   GenerateHeatmap hm W H mn mx n cs m = Inr (hm', m') \<Longrightarrow>
   running_maximum (others \<union> cells hm') m' \<and> map length hm' = map length hm"
proof (induction cs arbitrary: hm m)
  case Nil
  then show ?case by (simp add: GenerateHeatmap_def)
next
  case (Cons c cs)
  then obtain ps s1 where ps: "buddhabrotPoints c n = Inr ps"
    and s1: "accumulate_points W H mn mx ps (hm, m) = Inr s1"
    and rest: "generate_samples W H mn mx n cs s1 = Inr (hm', m')"
    by (auto simp: GenerateHeatmap_def split: sum.splits)
  have 1: "running_maximum (others \<union> cells (fst s1)) (snd s1) \<and> map length (fst s1) = map length hm"
    using accumulate_points_running_maximum [OF _ s1] Cons.prems(1) by simp
  have "GenerateHeatmap (fst s1) W H mn mx n cs (snd s1) = Inr (hm', m')"
    using rest by (simp add: GenerateHeatmap_def)
  then show ?case
    using Cons.IH [of "fst s1" "snd s1"] 1 by simp
qed

lemma cells_replicate: "cells (replicate h (replicate w x)) \<subseteq> {x}"
  by (auto simp: cells_def)

lemma AllocHeatmap_Inr:
  "AllocHeatmap W H = Inr z \<Longrightarrow> z = replicate (nat H) (replicate (nat W) (Finite 0))"
  by (auto simp: AllocHeatmap_def split: if_splits)

lemma running_maximum_initial:
  "V \<subseteq> {Finite 0} \<Longrightarrow> running_maximum V (Finite 0)"
  by (auto simp: running_maximum_def)

lemma cells_nonempty:
  assumes "map length hm = map length (replicate (nat H) (replicate (nat W) x))"
    and "0 < W" and "0 < H"
  shows "cells hm \<noteq> {}"
proof -
  have l: "length hm = nat H"
    using assms(1) by (metis length_map length_replicate)
  then have 0: "0 < length hm" using assms(3) by simp
  have "length (hm ! 0) = map length hm ! 0" using 0 by simp
  also have "\<dots> = nat W" using assms(3) by (simp add: assms(1))
  finally have "0 < length (hm ! 0)" using assms(2) by simp
  then have "hm ! 0 ! 0 \<in> cells hm" using 0 unfolding cells_nth by blast
  then show ?thesis by auto
qed

lemma main_generate_running_maximum:
  assumes "main_generate W H mn mx rI bI gI sr sb sg = Inr (red, green, blue, m)"
  shows "running_maximum (cells red \<union> cells green \<union> cells blue) m"
    and "map length red = map length (replicate (nat H) (replicate (nat W) (Finite 0)))"
proof -
  define z where "z = replicate (nat H) (replicate (nat W) (Finite 0))"
  obtain m1 m2 where red: "GenerateHeatmap z W H mn mx rI sr (Finite 0) = Inr (red, m1)"
    and blue: "GenerateHeatmap z W H mn mx bI sb m1 = Inr (blue, m2)"
    and green: "GenerateHeatmap z W H mn mx gI sg m2 = Inr (green, m)"
    using assms
    by (auto simp: main_generate_def z_def split: sum.splits dest!: AllocHeatmap_Inr)
  have z: "cells z \<subseteq> {Finite 0}" unfolding z_def by (rule cells_replicate)
  have "running_maximum ((cells z \<union> cells z) \<union> cells z) (Finite 0)"
    using z by (intro running_maximum_initial) auto
  from GenerateHeatmap_running_maximum [OF this red]
  have 1: "running_maximum ((cells z \<union> cells z) \<union> cells red) m1"
    and s: "map length red = map length z" by simp_all
  have "(cells z \<union> cells z) \<union> cells red = (cells red \<union> cells z) \<union> cells z" by auto
  with 1 have "running_maximum ((cells red \<union> cells z) \<union> cells z) m1" by simp
  from GenerateHeatmap_running_maximum [OF this blue]
  have 2: "running_maximum ((cells red \<union> cells z) \<union> cells blue) m2" by simp
  have "(cells red \<union> cells z) \<union> cells blue = (cells red \<union> cells blue) \<union> cells z" by auto
  with 2 have "running_maximum ((cells red \<union> cells blue) \<union> cells z) m2" by simp
  from GenerateHeatmap_running_maximum [OF this green]
  have 3: "running_maximum ((cells red \<union> cells blue) \<union> cells green) m" by simp
  have "(cells red \<union> cells blue) \<union> cells green = cells red \<union> cells green \<union> cells blue" by auto
  with 3 show "running_maximum (cells red \<union> cells green \<union> cells blue) m" by simp
  show "map length red = map length (replicate (nat H) (replicate (nat W) (Finite 0)))"
    using s by (simp add: z_def)
qed

lemma count_le_zero: "is_count v \<Longrightarrow> fp_le v (Finite 0) \<Longrightarrow> v = Finite 0"
  by (cases v) auto

text \<open>
  The runs that stay inside the grids. \<open>running_maximum written m\<close> says that \<open>m\<close> is the
  maximum of the cell values \<open>written\<close> (counts that \<open>m\<close> bounds, \<open>m\<close> itself 0 or one of
  them). It holds of the freshly allocated heatmaps and the initial 0, and an increment
  that indexes a cell of the grid keeps it for the cells of all channels; so, when none of
  the three generator runs leaves its grid, \<^verbatim>\<open>maxHeatmapValue\<close> bounds every cell of the
  three heatmaps and is the value of one. A run that indexes outside a grid has no such
  result: see the last section.
\<close>

theorem running_maximum_inside_grid:
  "(AllocHeatmap IMAGE_WIDTH IMAGE_HEIGHT = Inr allocated \<longrightarrow>
      running_maximum (cells allocated) (Finite 0)) \<and>
   (running_maximum (others \<union> cells (fst s)) (snd s) \<and>
    accumulate_point IMAGE_WIDTH IMAGE_HEIGHT MINIMUM MAXIMUM point s = Inr s' \<longrightarrow>
      running_maximum (others \<union> cells (fst s')) (snd s')) \<and>
   (main_generate IMAGE_WIDTH IMAGE_HEIGHT MINIMUM MAXIMUM RED_ITERS BLUE_ITERS GREEN_ITERS
      redSamples blueSamples greenSamples = Inr (red, green, blue, maxHeatmapValue) \<longrightarrow>
      (\<forall>v\<in>cells red \<union> cells green \<union> cells blue. fp_le v maxHeatmapValue) \<and>
      (0 < IMAGE_WIDTH \<and> 0 < IMAGE_HEIGHT \<longrightarrow>
         maxHeatmapValue \<in> cells red \<union> cells green \<union> cells blue))"
proof (intro conjI impI)
  assume "AllocHeatmap IMAGE_WIDTH IMAGE_HEIGHT = Inr allocated"
  then show "running_maximum (cells allocated) (Finite 0)"
    using cells_replicate by (auto dest!: AllocHeatmap_Inr intro!: running_maximum_initial)
next
  assume "running_maximum (others \<union> cells (fst s)) (snd s) \<and>
    accumulate_point IMAGE_WIDTH IMAGE_HEIGHT MINIMUM MAXIMUM point s = Inr s'"
  then show "running_maximum (others \<union> cells (fst s')) (snd s')"
    using accumulate_point_running_maximum by blast
next
  assume g: "main_generate IMAGE_WIDTH IMAGE_HEIGHT MINIMUM MAXIMUM RED_ITERS BLUE_ITERS
    GREEN_ITERS redSamples blueSamples greenSamples = Inr (red, green, blue, maxHeatmapValue)"
  note inv = main_generate_running_maximum [OF g]
  show "\<forall>v\<in>cells red \<union> cells green \<union> cells blue. fp_le v maxHeatmapValue"
    using inv(1) by (simp add: running_maximum_def)
  assume "0 < IMAGE_WIDTH \<and> 0 < IMAGE_HEIGHT"
  then obtain x where x: "x \<in> cells red"
    using cells_nonempty [OF inv(2)] by auto
  show "maxHeatmapValue \<in> cells red \<union> cells green \<union> cells blue"
  proof (cases "maxHeatmapValue = Finite 0")
    case True
    have "is_count x" "fp_le x (Finite 0)"
      using inv(1) x by (auto simp: running_maximum_def True)
    then have "x = Finite 0" by (rule count_le_zero)
    then show ?thesis using x True by simp
  next
    case False
    then show ?thesis using inv(1) by (simp add: running_maximum_def)
  qed
qed

lemma trajectory_minus_two:
  assumes "1 < B"
  shows "buddhabrotPoints (Complex (Finite (- 2)) (Finite 0)) B = Inr [Complex (Finite (- 2)) (Finite 0)]"
proof -
  have 1: "orbit (Complex (Finite (- 2)) (Finite 0)) 1 = Complex (Finite (- 2)) (Finite 0)"
    by (simp add: cadd_def cmul_def fp_ops)
  have "\<forall>j<1. fp_le (sqmagnitude (orbit (Complex (Finite (- 2)) (Finite 0)) j)) (Finite 2)"
    by (simp add: sqmagnitude_zero)
  moreover have "\<not> fp_le (sqmagnitude (orbit (Complex (Finite (- 2)) (Finite 0)) 1)) (Finite 2)"
    unfolding 1 by (simp add: sqmagnitude_def fp_ops)
  ultimately have "buddhabrotPoints (Complex (Finite (- 2)) (Finite 0)) B =
      Inr (map (orbit (Complex (Finite (- 2)) (Finite 0))) [1..<Suc 1])"
    using assms by (intro points_escape) auto
  then show ?thesis using 1 by (simp del: orbit.simps)
qed

lemma trajectory_minus_two_i:
  assumes "1 < B"
  shows "buddhabrotPoints (Complex (Finite 0) (Finite (- 2))) B = Inr [Complex (Finite 0) (Finite (- 2))]"
proof -
  have 1: "orbit (Complex (Finite 0) (Finite (- 2))) 1 = Complex (Finite 0) (Finite (- 2))"
    by (simp add: cadd_def cmul_def fp_ops)
  have "\<forall>j<1. fp_le (sqmagnitude (orbit (Complex (Finite 0) (Finite (- 2))) j)) (Finite 2)"
    by (simp add: sqmagnitude_zero)
  moreover have "\<not> fp_le (sqmagnitude (orbit (Complex (Finite 0) (Finite (- 2))) 1)) (Finite 2)"
    unfolding 1 by (simp add: sqmagnitude_def fp_ops)
  ultimately have "buddhabrotPoints (Complex (Finite 0) (Finite (- 2))) B =
      Inr (map (orbit (Complex (Finite 0) (Finite (- 2)))) [1..<Suc 1])"
    using assms by (intro points_escape) auto
  then show ?thesis using 1 by (simp del: orbit.simps)
qed

lemma small_rows:
  "rowFromReal (Finite (- 2)) (Finite (- 2)) (Finite 2) 4 = Inr 0"
  "colFromImaginary (Finite 0) (Finite (- 2)) (Finite 2) 4 = Inr 2"
  "rowFromReal (Finite 0) (Finite (- 2)) (Finite 2) 4 = Inr 2"
  "colFromImaginary (Finite (- 2)) (Finite (- 2)) (Finite 2) 4 = Inr 0"
  by (simp_all add: mapper_defs fp_ops)

lemma small_generate:
  "main_generate 4 4 (Complex (Finite (- 2)) (Finite (- 2))) (Complex (Finite 2) (Finite 2)) 3 3 3
     [Complex (Finite (- 2)) (Finite 0)] [] [] =
   Inr ((replicate 4 (replicate 4 (Finite 0)))[0 := (replicate 4 (Finite 0))[2 := Finite 1]],
        replicate 4 (replicate 4 (Finite 0)), replicate 4 (replicate 4 (Finite 0)), Finite 1)"
  by (simp add: main_generate_def AllocHeatmap_def GenerateHeatmap_def trajectory_minus_two
      accumulate_point_def in_view_def small_rows increment_cell_def fp_ops Let_def)

theorem running_maximum_inside_grid_example:
  "main_generate 4 4 (Complex (Finite (- 2)) (Finite (- 2))) (Complex (Finite 2) (Finite 2)) 3 3 3
     [Complex (Finite (- 2)) (Finite 0)] [] [] =
   Inr ((replicate 4 (replicate 4 (Finite 0)))[0 := (replicate 4 (Finite 0))[2 := Finite 1]],
        replicate 4 (replicate 4 (Finite 0)), replicate 4 (replicate 4 (Finite 0)), Finite 1) \<and>
   (0::int) < 4 \<and>
   Finite 1 \<in> cells ((replicate 4 (replicate 4 (Finite 0)))[0 := (replicate 4 (Finite 0))[2 := Finite 1]])
     \<union> cells (replicate 4 (replicate 4 (Finite 0))) \<union> cells (replicate 4 (replicate 4 (Finite 0))) \<and>
   fp_le (Finite 0) (Finite 1)"
proof -
  note t = running_maximum_inside_grid [of 4 4 "[]" "{}" "([], Finite 0)"
      "Complex (Finite (- 2)) (Finite (- 2))" "Complex (Finite 2) (Finite 2)" "Complex (Finite 0) (Finite 0)"
      "([], Finite 0)" 3 3 3 "[Complex (Finite (- 2)) (Finite 0)]" "[]" "[]"
      "(replicate 4 (replicate 4 (Finite 0)))[0 := (replicate 4 (Finite 0))[2 := Finite 1]]"
      "replicate 4 (replicate 4 (Finite 0))" "replicate 4 (replicate 4 (Finite 0))" "Finite 1"]
  have "(0::int) < 4" by simp
  with t small_generate have
    "Finite 1 \<in> cells ((replicate 4 (replicate 4 (Finite 0)))[0 := (replicate 4 (Finite 0))[2 := Finite 1]])
     \<union> cells (replicate 4 (replicate 4 (Finite 0))) \<union> cells (replicate 4 (replicate 4 (Finite 0)))"
    by blast
  then show ?thesis using small_generate by simp
qed

section \<open>Normalizing with a zero maximum\<close>

lemma int_to_float_one: "int_to_float 1 = Finite 1"
  by (simp add: int_to_float_def)

lemma colorFromHeatmap_zero_zero:
  "colorFromHeatmap (Finite 0) (Finite 0) (Finite 1) = NaN"
  by (simp add: colorFromHeatmap_def float_to_double_def fp_ops)

lemma scale_heatmap_zero:
  assumes "cells channel \<subseteq> {Finite 0}"
  shows "scale_heatmap channel (Finite 0) = map (map (\<lambda>v. NaN)) channel"
  unfolding scale_heatmap_def
proof (intro map_cong refl)
  fix row v assume "row \<in> set channel" "v \<in> set row"
  then have "v = Finite 0" using assms by (auto simp: cells_def)
  then show "colorFromHeatmap v (Finite 0) (int_to_float 1) = NaN"
    by (simp add: int_to_float_one colorFromHeatmap_zero_zero)
qed

text \<open>
  C4, amended. When \<^verbatim>\<open>maxHeatmapValue\<close> is 0 after the three runs, every cell of every
  heatmap is 0, and the normalizer divides by zero: the scale factor is \<open>+\<infinity>\<close>, each cell
  becomes \<open>0 * \<infinity>\<close>, which is NaN, and these are the colours \<^verbatim>\<open>main\<close> hands to the
  renderer. Nothing fails and nothing is set to zero.
\<close>

theorem zero_maximum_normalizes_to_NaN:
  assumes "main_generate IMAGE_WIDTH IMAGE_HEIGHT MINIMUM MAXIMUM RED_ITERS BLUE_ITERS GREEN_ITERS
             redSamples blueSamples greenSamples = Inr (red, green, blue, Finite 0)"
  shows "main_colors IMAGE_WIDTH IMAGE_HEIGHT MINIMUM MAXIMUM RED_ITERS BLUE_ITERS GREEN_ITERS
           redSamples blueSamples greenSamples =
         Inr (map (map (\<lambda>v. NaN)) red, map (map (\<lambda>v. NaN)) green, map (map (\<lambda>v. NaN)) blue)"
proof -
  have "running_maximum (cells red \<union> cells green \<union> cells blue) (Finite 0)"
    using assms by (rule main_generate_running_maximum)
  then have "\<forall>v\<in>cells red \<union> cells green \<union> cells blue. v = Finite 0"
    by (auto simp: running_maximum_def intro: count_le_zero)
  then have "cells red \<subseteq> {Finite 0}" "cells green \<subseteq> {Finite 0}" "cells blue \<subseteq> {Finite 0}"
    by auto
  then show ?thesis
    by (simp add: main_colors_def assms scale_heatmap_zero)
qed

lemma generate_no_samples:
  "main_generate 10 10 (Complex (Finite (- 2)) (Finite (- 2))) (Complex (Finite 2) (Finite 2))
     1 1 1 [] [] [] =
     Inr (replicate 10 (replicate 10 (Finite 0)), replicate 10 (replicate 10 (Finite 0)),
          replicate 10 (replicate 10 (Finite 0)), Finite 0)"
  by (simp add: main_generate_def AllocHeatmap_def GenerateHeatmap_def)

theorem zero_maximum_normalizes_to_NaN_witness:
  "main_generate 10 10 (Complex (Finite (- 2)) (Finite (- 2))) (Complex (Finite 2) (Finite 2))
     1 1 1 [] [] [] =
     Inr (replicate 10 (replicate 10 (Finite 0)), replicate 10 (replicate 10 (Finite 0)),
          replicate 10 (replicate 10 (Finite 0)), Finite 0) \<and>
   main_colors 10 10 (Complex (Finite (- 2)) (Finite (- 2))) (Complex (Finite 2) (Finite 2))
     1 1 1 [] [] [] =
     Inr (replicate 10 (replicate 10 NaN), replicate 10 (replicate 10 NaN),
          replicate 10 (replicate 10 NaN))"
  using generate_no_samples zero_maximum_normalizes_to_NaN [OF generate_no_samples]
  by simp

text \<open>
  C4 as stated fails in its own scenario (10 by 10 cells, budget 1, no samples): the
  heatmaps and the maximum are 0, the division by zero gives the scale factor \<open>+\<infinity>\<close>, and
  the result is not an error and not zero but NaN in every cell.
\<close>

theorem zero_maximum_unguarded_counterexample:
  "main_generate 10 10 (Complex (Finite (- 2)) (Finite (- 2))) (Complex (Finite 2) (Finite 2))
     1 1 1 [] [] [] =
     Inr (replicate 10 (replicate 10 (Finite 0)), replicate 10 (replicate 10 (Finite 0)),
          replicate 10 (replicate 10 (Finite 0)), Finite 0) \<and>
   main_colors 10 10 (Complex (Finite (- 2)) (Finite (- 2))) (Complex (Finite 2) (Finite 2))
     1 1 1 [] [] [] =
     Inr (replicate 10 (replicate 10 NaN), replicate 10 (replicate 10 NaN),
          replicate 10 (replicate 10 NaN)) \<and>
   div32 (mul32 (Finite 1) (int_to_float 1)) (mul32 (Finite 1) (Finite 0)) = PInf \<and>
   NaN \<noteq> Finite 0"
  by (simp add: main_colors_def main_generate_def AllocHeatmap_def GenerateHeatmap_def
      scale_heatmap_def colorFromHeatmap_zero_zero int_to_float_one fp_ops)

section \<open>Rounding is monotone and accurate\<close>

lemma round_half_even_cases:
  "round_half_even x = \<lfloor>x\<rfloor> \<or> round_half_even x = \<lfloor>x\<rfloor> + 1"
  by (simp add: round_half_even_def Let_def)

lemma round_half_even_mono:
  assumes "x \<le> y"
  shows "round_half_even x \<le> round_half_even y"
proof (cases "\<lfloor>x\<rfloor> = \<lfloor>y\<rfloor>")
  case True
  have "x - of_int \<lfloor>x\<rfloor> \<le> y - of_int \<lfloor>y\<rfloor>"
    using assms True by simp
  then show ?thesis
    by (auto simp: round_half_even_def Let_def True)
next
  case False
  then have "\<lfloor>x\<rfloor> < \<lfloor>y\<rfloor>"
    using floor_mono [OF assms] by simp
  then have "round_half_even x \<le> \<lfloor>y\<rfloor>"
    using round_half_even_cases [of x] by auto
  also have "\<dots> \<le> round_half_even y"
    using round_half_even_cases [of y] by auto
  finally show ?thesis .
qed

lemma round_half_even_le: "x \<le> of_int n \<Longrightarrow> round_half_even x \<le> n"
  using round_half_even_mono [of x "of_int n"] by simp

lemma round_half_even_ge: "of_int n \<le> x \<Longrightarrow> n \<le> round_half_even x"
  using round_half_even_mono [of "of_int n" x] by simp

lemma ilog2_mono:
  assumes "0 < x" and "x \<le> y"
  shows "ilog2 x \<le> ilog2 y"
proof -
  have "2 powi (ilog2 x) \<le> \<bar>x\<bar>" "\<bar>y\<bar> < 2 powi (ilog2 y + 1)"
    using assms ilog2_bounds [of x] ilog2_bounds [of y] by auto
  then have "(2::rat) powi (ilog2 x) < 2 powi (ilog2 y + 1)"
    using assms by simp
  then have "ilog2 x < ilog2 y + 1"
    using two_powi_mono [of "ilog2 y + 1" "ilog2 x"] by (cases "ilog2 x < ilog2 y + 1") auto
  then show ?thesis by simp
qed

text \<open>The rounded value of a positive number, before the overflow test.\<close>

lemma rnd_positive:
  assumes "0 < x"
  shows "rnd p emax x =
    (let r = of_int (round_half_even (x / 2 powi (max (ilog2 x) (1 - emax) - int p + 1))) *
             2 powi (max (ilog2 x) (1 - emax) - int p + 1)
     in if 2 powi (emax + 1) \<le> r then PInf else Finite r)"
proof -
  have "0 \<le> round_half_even (x / 2 powi (max (ilog2 x) (1 - emax) - int p + 1))"
    using assms by (intro round_half_even_nonneg) simp
  then have "0 \<le> of_int (round_half_even (x / 2 powi (max (ilog2 x) (1 - emax) - int p + 1))) *
      (2::rat) powi (max (ilog2 x) (1 - emax) - int p + 1)"
    by simp
  then show ?thesis
    using assms by (simp add: rnd_def Let_def abs_of_nonneg)
qed

lemma rounded_mono:
  assumes "0 < x" and "x \<le> y" and "0 < p"
  shows "of_int (round_half_even (x / 2 powi (max (ilog2 x) m - int p + 1))) *
           2 powi (max (ilog2 x) m - int p + 1) \<le>
         of_int (round_half_even (y / 2 powi (max (ilog2 y) m - int p + 1))) *
           (2::rat) powi (max (ilog2 y) m - int p + 1)"
proof -
  define ex where "ex = max (ilog2 x) m"
  define ey where "ey = max (ilog2 y) m"
  define ux :: rat where "ux = 2 powi (ex - int p + 1)"
  define uy :: rat where "uy = 2 powi (ey - int p + 1)"
  have y: "0 < y" using assms by simp
  have le: "ex \<le> ey"
    using ilog2_mono [OF assms(1,2)] by (simp add: ex_def ey_def)
  have ux: "0 < ux" and uy: "0 < uy" by (simp_all add: ux_def uy_def)
  show ?thesis
    unfolding ex_def [symmetric] ey_def [symmetric] ux_def [symmetric] uy_def [symmetric]
  proof (cases "ex = ey")
    case True
    then have "ux = uy" by (simp add: ux_def uy_def)
    moreover have "x / uy \<le> y / uy"
      using assms(2) uy by (simp add: divide_right_mono)
    ultimately show "of_int (round_half_even (x / ux)) * ux \<le> of_int (round_half_even (y / uy)) * uy"
      using uy round_half_even_mono [of "x / uy" "y / uy"] by simp
  next
    case False
    then have lt: "ex < ey" using le by simp
    then have ey: "ey = ilog2 y" by (auto simp: ex_def ey_def max_def split: if_splits)
    have "x < 2 powi (ilog2 x + 1)"
      using ilog2_bounds(2) [of x] assms(1) by simp
    also have "\<dots> \<le> 2 powi (ex + 1)"
      by (intro two_powi_mono) (simp add: ex_def)
    finally have x: "x < 2 powi (ex + 1)" .
    have "x / ux \<le> 2 powi (ex + 1) / ux"
      using x ux by (simp add: divide_right_mono)
    also have "2 powi (ex + 1) / ux = 2 powi (int p)"
      by (simp add: ux_def flip: power_int_diff)
    also have "\<dots> = of_int (2 ^ p)" by simp
    finally have "round_half_even (x / ux) \<le> 2 ^ p"
      by (rule round_half_even_le)
    then have "(of_int (round_half_even (x / ux)) :: rat) \<le> of_int (2 ^ p)"
      by (simp only: of_int_le_iff)
    then have "of_int (round_half_even (x / ux)) * ux \<le> of_int (2 ^ p) * ux"
      using ux by (simp only: mult_le_cancel_right_pos)
    also have "of_int (2 ^ p) * ux = 2 powi (ex + 1)"
      by (simp add: ux_def power_int_add power_int_diff field_simps flip: power_int_of_nat)
    also have "\<dots> \<le> 2 powi ey"
      using lt by (intro two_powi_mono) simp
    finally have 1: "of_int (round_half_even (x / ux)) * ux \<le> 2 powi ey" .
    have "2 powi ey \<le> y"
      using ilog2_bounds(1) [of y] y by (simp add: ey)
    then have "2 powi ey / uy \<le> y / uy"
      using uy by (simp add: divide_right_mono)
    moreover have "2 powi ey / uy = of_int (2 ^ (p - 1))"
    proof -
      have "2 powi ey / uy = (2::rat) powi (int (p - 1))"
        using assms(3) by (simp add: uy_def of_nat_diff flip: power_int_diff)
      then show ?thesis by simp
    qed
    ultimately have "2 ^ (p - 1) \<le> round_half_even (y / uy)"
      by (intro round_half_even_ge) simp
    then have "(of_int (2 ^ (p - 1)) :: rat) \<le> of_int (round_half_even (y / uy))"
      by (simp only: of_int_le_iff)
    then have "of_int (2 ^ (p - 1)) * uy \<le> of_int (round_half_even (y / uy)) * uy"
      using uy by (simp only: mult_le_cancel_right_pos)
    moreover have "of_int (2 ^ (p - 1)) * uy = 2 powi ey"
    proof -
      have "of_int (2 ^ (p - 1)) * uy = (2::rat) powi (int (p - 1)) * 2 powi (ey - int p + 1)"
        by (simp add: uy_def)
      also have "\<dots> = 2 powi (int (p - 1) + (ey - int p + 1))"
        by (simp only: two_powi_add)
      also have "int (p - 1) + (ey - int p + 1) = ey"
        using assms(3) by (simp add: of_nat_diff)
      finally show ?thesis .
    qed
    ultimately have 2: "2 powi ey \<le> of_int (round_half_even (y / uy)) * uy" by simp
    from 1 2 show "of_int (round_half_even (x / ux)) * ux \<le> of_int (round_half_even (y / uy)) * uy"
      by simp
  qed
qed

lemma rnd_mono:
  assumes "0 \<le> x" and "x \<le> y" and "0 < p"
  shows "fp_le (rnd p emax x) (rnd p emax y)"
proof (cases "x = 0")
  case True
  have "nonneg_fp (rnd p emax y)"
    using assms by (intro rnd_nonneg_fp) simp
  then show ?thesis
    by (cases "rnd p emax y") (simp_all add: True rnd_zero)
next
  case False
  then have x: "0 < x" using assms(1) by simp
  then have y: "0 < y" using assms(2) by simp
  show ?thesis
    using rounded_mono [OF x assms(2,3), of "1 - emax"]
    by (simp add: rnd_positive [OF x] rnd_positive [OF y] Let_def)
qed

lemma round_half_even_error:
  "of_int (round_half_even y) \<le> y + 1 / 2" "y - 1 / 2 \<le> of_int (round_half_even y)"
proof -
  have "of_int \<lfloor>y\<rfloor> \<le> y" "y < of_int \<lfloor>y\<rfloor> + 1" by linarith+
  then show "of_int (round_half_even y) \<le> y + 1 / 2" "y - 1 / 2 \<le> of_int (round_half_even y)"
    by (auto simp: round_half_even_def Let_def; linarith)+
qed

text \<open>In the normal range the rounded value is off by at most \<open>2^(-p)\<close> of the number.\<close>

lemma rounded_error:
  fixes p :: nat and emax :: int and x :: rat
  assumes "0 < x" and "1 - emax \<le> ilog2 x"
  defines "r \<equiv> of_int (round_half_even (x / 2 powi (max (ilog2 x) (1 - emax) - int p + 1))) *
             2 powi (max (ilog2 x) (1 - emax) - int p + 1)"
  shows "r \<le> x * (1 + 2 powi (- int p))" and "x * (1 - 2 powi (- int p)) \<le> r"
proof -
  define u :: rat where "u = 2 powi (ilog2 x - int p + 1)"
  have u: "0 < u" by (simp add: u_def)
  have r: "r = of_int (round_half_even (x / u)) * u"
    using assms(2) by (simp add: r_def u_def max_def)
  have half: "u / 2 = 2 powi (ilog2 x) * 2 powi (- int p)"
  proof -
    have "u = 2 powi (ilog2 x) * 2 powi (- int p) * 2 powi 1"
      unfolding u_def by (simp only: two_powi_add [symmetric]) simp
    then show ?thesis by simp
  qed
  have "2 powi (ilog2 x) \<le> x"
    using ilog2_bounds(1) [of x] assms(1) by simp
  then have bound: "u / 2 \<le> x * 2 powi (- int p)"
    unfolding half by (intro mult_right_mono) simp_all
  have "r \<le> (x / u + 1 / 2) * u"
    unfolding r using u round_half_even_error(1) [of "x / u"] by (intro mult_right_mono) simp_all
  also have "\<dots> = x + u / 2" using u by (simp add: field_simps)
  finally show "r \<le> x * (1 + 2 powi (- int p))"
    using bound by (simp add: field_simps)
  have "(x / u - 1 / 2) * u \<le> r"
    unfolding r using u round_half_even_error(2) [of "x / u"] by (intro mult_right_mono) simp_all
  moreover have "(x / u - 1 / 2) * u = x - u / 2" using u by (simp add: field_simps)
  ultimately show "x * (1 - 2 powi (- int p)) \<le> r"
    using bound by (simp add: field_simps)
qed

lemma rnd_dyadic:
  assumes "\<bar>n\<bar> < 2 ^ p" and "2 - emax - int p \<le> j" and "int p + j \<le> emax + 1"
  shows "rnd p emax (of_int n * 2 powi j) = Finite (of_int n * 2 powi j)"
proof (cases "n = 0")
  case True
  then show ?thesis by (simp add: rnd_def)
next
  case False
  define q :: rat where "q = of_int n * 2 powi j"
  have q0: "q \<noteq> 0" using False by (simp add: q_def)
  have "(of_int \<bar>n\<bar> :: rat) < of_int (2 ^ p)"
    using assms(1) by (simp only: of_int_less_iff)
  then have "\<bar>of_int n :: rat\<bar> < 2 powi (int p)" by simp
  then have "\<bar>of_int n :: rat\<bar> * 2 powi j < 2 powi (int p) * 2 powi j"
    by (intro mult_strict_right_mono) simp_all
  then have qp: "\<bar>q\<bar> < 2 powi (int p + j)"
    by (simp add: q_def abs_mult two_powi_add)
  define e where "e = max (ilog2 q) (1 - emax)"
  have "(2::rat) powi (ilog2 q) < 2 powi (int p + j)"
    using ilog2_bounds(1) [OF q0] qp by simp
  then have "ilog2 q < int p + j"
    using two_powi_mono [of "int p + j" "ilog2 q"] by (cases "ilog2 q < int p + j") auto
  then have e: "e \<le> int p + j - 1" using assms(2) by (simp add: e_def)
  define d where "d = nat (int p + j - 1 - e)"
  have h: "2 powi j / 2 powi (e - int p + 1) = (2::rat) powi (int d)"
    using e by (simp add: d_def flip: power_int_diff) (simp add: algebra_simps)
  have "q / 2 powi (e - int p + 1) = of_int n * (2 powi j / 2 powi (e - int p + 1))"
    by (simp add: q_def)
  also have "\<dots> = of_int n * 2 powi (int d)"
    by (simp only: h)
  also have "\<dots> = of_int (n * 2 ^ d)" by simp
  finally have 1: "q / 2 powi (max (ilog2 q) (1 - emax) - int p + 1) = of_int (n * 2 ^ d)"
    by (simp add: e_def)
  have "\<bar>q\<bar> < 2 powi (emax + 1)"
    using qp two_powi_mono [OF assms(3)] by simp
  with 1 show ?thesis unfolding q_def by (rule rnd_exact)
qed



lemma fp_le_Finite:
  "nonneg_fp a \<Longrightarrow> fp_le a (Finite b) \<Longrightarrow> \<exists>w. a = Finite w \<and> 0 \<le> w \<and> w \<le> b"
  by (cases a) auto

lemma fp_ge_Finite:
  "nonneg_fp a \<Longrightarrow> fp_le (Finite b) a \<Longrightarrow> a = PInf \<or> (\<exists>w. a = Finite w \<and> b \<le> w)"
  by (cases a) auto

section \<open>Normalizing counts\<close>








section \<open>The error of a rounding\<close>

lemma ilog2_ge:
  assumes "2 powi e \<le> \<bar>x\<bar>"
  shows "e \<le> ilog2 x"
proof -
  have "0 < \<bar>x\<bar>" using assms two_powi_pos [of e] by linarith
  then have x: "x \<noteq> 0" by auto
  have "(2::rat) powi e < 2 powi (ilog2 x + 1)"
    using ilog2_bounds(2) [OF x] assms by simp
  then have "e < ilog2 x + 1"
    using two_powi_mono [of "ilog2 x + 1" e] by (cases "e < ilog2 x + 1") auto
  then show ?thesis by simp
qed

text \<open>
  The error of a rounding that does not overflow: half a unit in the last place, which is
  at most \<open>2^(-p)\<close> of the number or, below the normal range, half the spacing of the
  subnormal numbers.
\<close>

lemma rnd_error:
  assumes "rnd p emax x = Finite r"
  shows "\<bar>r - x\<bar> \<le> \<bar>x\<bar> * 2 powi (- int p) + 2 powi (1 - emax - int p)"
proof (cases "x = 0")
  case True
  then show ?thesis using assms by (simp add: rnd_zero)
next
  case False
  define e where "e = max (ilog2 x) (1 - emax)"
  define u :: rat where "u = 2 powi (e - int p + 1)"
  have u: "0 < u" by (simp add: u_def)
  have r: "r = of_int (round_half_even (x / u)) * u"
    using assms False
    by (simp add: rnd_def Let_def e_def [symmetric] u_def [symmetric] split: if_splits)
  have half: "u / 2 = 2 powi e * 2 powi (- int p)"
  proof -
    have "u = 2 powi e * 2 powi (- int p) * 2 powi 1"
      unfolding u_def by (simp only: two_powi_add [symmetric]) simp
    then show ?thesis by simp
  qed
  have "\<bar>of_int (round_half_even (x / u)) - x / u\<bar> \<le> 1 / 2"
    using round_half_even_error [of "x / u"] by linarith
  then have "\<bar>of_int (round_half_even (x / u)) - x / u\<bar> * u \<le> 1 / 2 * u"
    using u by (intro mult_right_mono) simp_all
  moreover have "\<bar>of_int (round_half_even (x / u)) - x / u\<bar> * u = \<bar>r - x\<bar>"
  proof -
    have "\<bar>of_int (round_half_even (x / u)) - x / u\<bar> * u =
          \<bar>(of_int (round_half_even (x / u)) - x / u) * u\<bar>"
      using u by (simp add: abs_mult)
    also have "(of_int (round_half_even (x / u)) - x / u) * u = r - x"
      using u by (simp add: r field_simps)
    finally show ?thesis .
  qed
  ultimately have 1: "\<bar>r - x\<bar> \<le> u / 2" by simp
  have 2: "u / 2 \<le> \<bar>x\<bar> * 2 powi (- int p) + 2 powi (1 - emax - int p)"
  proof (cases "1 - emax \<le> ilog2 x")
    case True
    then have "e = ilog2 x" by (simp add: e_def)
    then have "2 powi e \<le> \<bar>x\<bar>"
      using ilog2_bounds(1) [OF False] by simp
    then have "u / 2 \<le> \<bar>x\<bar> * 2 powi (- int p)"
      unfolding half by (intro mult_right_mono) simp_all
    moreover have "(0::rat) \<le> 2 powi (1 - emax - int p)" by simp
    ultimately show ?thesis by linarith
  next
    case False
    then have "e = 1 - emax" by (simp add: e_def)
    then have "u / 2 = 2 powi (1 - emax - int p)"
      unfolding half by (simp only: two_powi_add [symmetric]) simp
    moreover have "0 \<le> \<bar>x\<bar> * 2 powi (- int p)" by simp
    ultimately show ?thesis by linarith
  qed
  from 1 2 show ?thesis by linarith
qed

lemma rnd64_error:
  assumes "rnd64 x = Finite r"
  shows "\<bar>r - x\<bar> \<le> \<bar>x\<bar> * 2 powi (- 53) + 2 powi (- 1075)"
  using rnd_error [of 53 1023 x r] assms by (simp add: rnd64_def)

text \<open>In the normal range the error is relative.\<close>

lemma rnd64_relative:
  assumes "2 powi (- 1022) \<le> x" and "rnd64 x = Finite r"
  shows "x * (1 - 2 powi (- 53)) \<le> r" and "r \<le> x * (1 + 2 powi (- 53))"
proof -
  have x: "0 < x" using assms(1) two_powi_pos [of "- 1022"] by linarith
  then have "2 powi (- 1022) \<le> \<bar>x\<bar>" using assms(1) by simp
  then have n: "1 - 1023 \<le> ilog2 x" using ilog2_ge [of "- 1022" x] by simp
  define r' :: rat where "r' = of_int (round_half_even (x / 2 powi (max (ilog2 x) (1 - 1023) - int 53 + 1))) *
             2 powi (max (ilog2 x) (1 - 1023) - int 53 + 1)"
  have "r = r'"
    using assms(2) unfolding rnd64_def
    by (simp add: rnd_positive [OF x] Let_def r'_def split: if_splits)
  then show "x * (1 - 2 powi (- 53)) \<le> r" and "r \<le> x * (1 + 2 powi (- 53))"
    using rounded_error [OF x n, of 53] by (simp_all add: r'_def)
qed

text \<open>A result of magnitude up to \<open>2^1023\<close> does not overflow; a finite result is below \<open>2^1024\<close>.\<close>

lemma rnd64_below:
  assumes "rnd64 x = Finite r"
  shows "\<bar>r\<bar> < 2 powi 1024"
  using assms unfolding rnd64_def
  by (cases "x = 0") (simp_all add: rnd_def Let_def split: if_splits)

lemma rnd64_finite:
  assumes "0 \<le> x" and "x \<le> 2 powi 1023"
  obtains r where "rnd64 x = Finite r" and "0 \<le> r"
proof (cases "x = 0")
  case True
  then have "rnd64 x = Finite 0" by (simp add: rnd64_def rnd_zero)
  then show ?thesis using that by simp
next
  case False
  then have x: "0 < x" using assms(1) by simp
  have "fp_le (rnd64 x) (rnd64 (2 powi 1023))"
    unfolding rnd64_def using assms by (intro rnd_mono) simp_all
  moreover have "rnd64 (2 powi 1023) = Finite (2 powi 1023)"
  proof -
    have "(2::rat) powi 1023 = 2 powi 52 * 2 powi 971"
      by (simp only: two_powi_add [symmetric]) simp
    also have "(2::rat) powi 52 = of_int (2 ^ 52)" by simp
    finally have e: "(2::rat) powi 1023 = of_int (2 ^ 52) * 2 powi 971" .
    have "rnd 53 1023 (of_int (2 ^ 52) * 2 powi 971) = Finite (of_int (2 ^ 52) * 2 powi 971)"
      by (rule rnd_dyadic) simp_all
    then show ?thesis by (simp only: rnd64_def e)
  qed
  moreover have "nonneg_fp (rnd64 x)"
    unfolding rnd64_def using assms(1) by (rule rnd_nonneg_fp)
  ultimately obtain w where "rnd64 x = Finite w" "0 \<le> w"
    using fp_le_Finite [of "rnd64 x" "2 powi 1023"] by auto
  then show ?thesis using that by simp
qed

section \<open>The accuracy of the coordinate mapper\<close>

text \<open>
  The error of the mapper's product. With \<open>S\<close> the side of the rectangle, \<open>s\<close> its rounded
  value, \<open>d\<close> the rounded offset \<open>x1\<close> of the coordinate and \<open>c\<close> the rounded scale factor
  \<open>N / s\<close>, the exact product \<open>d * c\<close> is within \<open>6 * 2^-53\<close> of the index \<open>x1 * N / S\<close>,
  relatively, up to an absolute \<open>2^-48\<close>.
\<close>

lemma mapper_product_error:
  fixes x1 S N s d c :: rat
  assumes x1: "0 \<le> x1" "x1 \<le> S" and S: "2 powi (- 960) \<le> S" "S \<le> 2 powi 1025"
    and N: "0 \<le> N" "N \<le> 2 ^ 31"
    and s: "S * (1 - 2 powi (- 53)) \<le> s" "s \<le> S * (1 + 2 powi (- 53))"
    and d: "0 \<le> d" "\<bar>d - x1\<bar> \<le> \<bar>x1\<bar> * 2 powi (- 53) + 2 powi (- 1075)"
    and c: "0 \<le> c" "\<bar>c - N / s\<bar> \<le> \<bar>N / s\<bar> * 2 powi (- 53) + 2 powi (- 1075)"
  shows "0 \<le> x1 * N / S" and "x1 * N / S \<le> N"
    and "\<bar>d * c - x1 * N / S\<bar> \<le> 6 / 2 ^ 53 * (x1 * N / S) + 1 / 2 ^ 48"
proof -
  define e :: rat where "e = 1 / 2 ^ 53"
  define a :: rat where "a = 2 powi (- 1075)"
  define C where "C = N / S"
  define y where "y = N / s"
  define X where "X = x1 * C"
  have e: "(2::rat) powi (- 53) = e" by (simp add: e_def power_int_minus)
  have a0: "0 < a" by (simp add: a_def)
  have a60: "a \<le> 1 / 2 ^ 60"
  proof -
    have "a \<le> 2 powi (- 60)" unfolding a_def by (intro two_powi_mono) simp
    then show ?thesis by (simp add: power_int_minus)
  qed
  have Spos: "0 < S" using S(1) two_powi_pos [of "- 960"] by linarith
  have s1: "S * (1 - e) \<le> s" and s2: "s \<le> S * (1 + e)"
    using s by (simp_all only: e)
  have "0 < S * (1 - e)" using Spos by (simp add: e_def)
  then have spos: "0 < s" using s1 by linarith
  have C0: "0 \<le> C" using N(1) Spos by (simp add: C_def)
  have y0: "0 \<le> y" using N(1) spos by (simp add: y_def)
  have CS: "C * S = N" using Spos by (simp add: C_def)
  have aS: "a * S \<le> 1 / 2 ^ 50"
  proof -
    have "a * S \<le> a * 2 powi 1025" using S(2) a0 by (intro mult_left_mono) simp_all
    also have "\<dots> = 2 powi (- 50)"
      unfolding a_def by (simp only: two_powi_add [symmetric]) simp
    finally show ?thesis by (simp add: power_int_minus)
  qed
  have C991: "C \<le> 2 powi 991"
  proof -
    have "N / S \<le> N / 2 powi (- 960)"
      using S(1) N(1) by (intro divide_left_mono) simp_all
    also have "\<dots> \<le> 2 ^ 31 / 2 powi (- 960)"
      using N(2) by (intro divide_right_mono) simp_all
    also have "\<dots> = 2 powi 31 / 2 powi (- 960)" by simp
    also have "\<dots> = 2 powi 991"
    proof -
      have "(2::rat) powi 31 = 2 powi 991 * 2 powi (- 960)"
        by (simp only: two_powi_add [symmetric]) simp
      then show ?thesis
        using two_powi_pos [of "- 960"] by simp
    qed
    finally show ?thesis by (simp add: C_def)
  qed
  have aC: "a * C \<le> 1 / 2 ^ 84"
  proof -
    have "a * C \<le> a * 2 powi 991" using C991 a0 by (intro mult_left_mono) simp_all
    also have "\<dots> = 2 powi (- 84)"
      unfolding a_def by (simp only: two_powi_add [symmetric]) simp
    finally show ?thesis by (simp add: power_int_minus)
  qed
  have y_up: "y \<le> C * (1 + 2 * e)"
  proof -
    have "N * 1 \<le> N * ((1 + 2 * e) * (1 - e))"
      using N(1) by (intro mult_left_mono) (simp_all add: e_def)
    also have "\<dots> = C * (1 + 2 * e) * (S * (1 - e))"
      by (simp add: CS [symmetric])
    also have "\<dots> \<le> C * (1 + 2 * e) * s"
      using s1 C0 by (intro mult_left_mono) (simp_all add: e_def)
    finally have "N \<le> C * (1 + 2 * e) * s" by simp
    then show ?thesis using spos by (simp add: y_def pos_divide_le_eq)
  qed
  have y_lo: "C * (1 - e) \<le> y"
  proof -
    have "C * (1 - e) * s \<le> C * (1 - e) * (S * (1 + e))"
      using s2 C0 by (intro mult_left_mono) (simp_all add: e_def)
    also have "\<dots> = N * ((1 - e) * (1 + e))"
      by (simp add: CS [symmetric])
    also have "\<dots> \<le> N * 1"
      using N(1) by (intro mult_left_mono) (simp_all add: e_def)
    finally have "C * (1 - e) * s \<le> N" by simp
    then show ?thesis using spos by (simp add: y_def pos_le_divide_eq)
  qed
  have "\<bar>c - y\<bar> \<le> \<bar>y\<bar> * e + a"
    using c(2) by (simp only: y_def e a_def)
  then have cy: "\<bar>c - y\<bar> \<le> y * e + a"
    using y0 by simp
  have cC: "\<bar>c - C\<bar> \<le> 4 * e * C + a"
    using cy y_up y_lo C0 unfolding e_def by (simp add: algebra_simps)
  have c_up: "c \<le> 2 * C + a"
    using cC C0 unfolding e_def by (simp add: algebra_simps)
  have "\<bar>d - x1\<bar> \<le> \<bar>x1\<bar> * e + a"
    using d(2) by (simp only: e a_def)
  then have dx: "\<bar>d - x1\<bar> \<le> x1 * e + a"
    using x1(1) by simp
  have X0: "0 \<le> X" using x1(1) C0 by (simp add: X_def)
  have XN: "X \<le> N"
  proof -
    have "X = N * (x1 / S)" by (simp add: X_def C_def)
    also have "\<dots> \<le> N * 1"
      using x1 Spos N(1) by (intro mult_left_mono) simp_all
    finally show ?thesis by simp
  qed
  have T1: "\<bar>(d - x1) * c\<bar> \<le> (x1 * e + a) * (2 * C + a)"
  proof -
    have "\<bar>(d - x1) * c\<bar> = \<bar>d - x1\<bar> * c" using c(1) by (simp add: abs_mult)
    also have "\<dots> \<le> (x1 * e + a) * (2 * C + a)"
      using dx c_up c(1) x1(1) a0 by (intro mult_mono) (simp_all add: e_def)
    finally show ?thesis .
  qed
  have T2: "\<bar>x1 * (c - C)\<bar> \<le> x1 * (4 * e * C + a)"
  proof -
    have "\<bar>x1 * (c - C)\<bar> = x1 * \<bar>c - C\<bar>" using x1(1) by (simp add: abs_mult)
    also have "\<dots> \<le> x1 * (4 * e * C + a)"
      using cC x1(1) by (intro mult_left_mono) simp_all
    finally show ?thesis .
  qed
  have "d * c - X = (d - x1) * c + x1 * (c - C)"
    by (simp add: X_def algebra_simps)
  then have "\<bar>d * c - X\<bar> \<le> \<bar>(d - x1) * c\<bar> + \<bar>x1 * (c - C)\<bar>"
    by (simp only: abs_triangle_ineq)
  then have T3: "\<bar>d * c - X\<bar> \<le> (x1 * e + a) * (2 * C + a) + x1 * (4 * e * C + a)"
    using T1 T2 by linarith
  have ax: "a * x1 \<le> 1 / 2 ^ 50"
  proof -
    have "a * x1 \<le> a * S" using x1(2) a0 by (intro mult_left_mono) simp_all
    then show ?thesis using aS by linarith
  qed
  have ax0: "0 \<le> a * x1" using a0 x1(1) by simp
  have axe: "a * x1 * e \<le> 1 / 2 ^ 50"
  proof -
    have "a * x1 * e \<le> a * x1 * 1" using ax0 by (intro mult_left_mono) (simp_all add: e_def)
    then show ?thesis using ax by simp
  qed
  have aa: "a * a \<le> 1 / 2 ^ 60"
  proof -
    have "a * a \<le> a * 1" using a0 a60 by (intro mult_left_mono) simp_all
    then show ?thesis using a60 by simp
  qed
  have expand: "(x1 * e + a) * (2 * C + a) + x1 * (4 * e * C + a) =
      6 * e * X + a * x1 * e + 2 * (a * C) + a * a + a * x1"
    by (simp add: X_def algebra_simps)
  have T4: "\<bar>d * c - X\<bar> \<le> 6 * e * X + 1 / 2 ^ 48"
    using T3 ax axe aa aC unfolding expand by simp
  show "0 \<le> x1 * N / S" using X0 by (simp add: X_def C_def)
  show "x1 * N / S \<le> N" using XN by (simp add: X_def C_def)
  show "\<bar>d * c - x1 * N / S\<bar> \<le> 6 / 2 ^ 53 * (x1 * N / S) + 1 / 2 ^ 48"
    using T4 by (simp add: X_def C_def e_def)
qed

text \<open>Rounding the product adds another \<open>2^-53\<close>: the result is within \<open>2^-19\<close> of the index.\<close>

lemma mapper_error_bound:
  fixes X N z p :: rat
  assumes "0 \<le> X" and "X \<le> N" and "N \<le> 2 ^ 31" and "0 \<le> z"
    and T4: "\<bar>z - X\<bar> \<le> 6 / 2 ^ 53 * X + 1 / 2 ^ 48"
    and p: "\<bar>p - z\<bar> \<le> \<bar>z\<bar> * 2 powi (- 53) + 2 powi (- 1075)"
  shows "\<bar>p - X\<bar> \<le> 2 powi (- 19)"
proof -
  define a :: rat where "a = 2 powi (- 1075)"
  have a60: "a \<le> 1 / 2 ^ 60"
  proof -
    have "a \<le> 2 powi (- 60)" unfolding a_def by (intro two_powi_mono) simp
    then show ?thesis by (simp add: power_int_minus)
  qed
  have e: "(2::rat) powi (- 53) = 1 / 2 ^ 53" by (simp add: power_int_minus)
  have "\<bar>p - z\<bar> \<le> \<bar>z\<bar> * (1 / 2 ^ 53) + a"
    using p by (simp only: e a_def)
  then have T5: "\<bar>p - z\<bar> \<le> z * (1 / 2 ^ 53) + a"
    using assms(4) by (simp only: abs_of_nonneg)
  have z1: "z \<le> X + 6 / 2 ^ 53 * X + 1 / 2 ^ 48" and z2: "X - 6 / 2 ^ 53 * X - 1 / 2 ^ 48 \<le> z"
    using T4 by linarith+
  have p1: "p \<le> z + z * (1 / 2 ^ 53) + a" and p2: "z - z * (1 / 2 ^ 53) - a \<le> p"
    using T5 by linarith+
  have X31: "X \<le> 2 ^ 31" using assms(2,3) by linarith
  have "p - X \<le> 1 / 2 ^ 19"
    using z1 p1 assms(1) X31 a60 by (simp add: algebra_simps)
  moreover have "X - p \<le> 1 / 2 ^ 19"
    using z2 z1 p2 assms(1) X31 a60 by (simp add: algebra_simps)
  ultimately have "\<bar>p - X\<bar> \<le> 1 / 2 ^ 19" by linarith
  then show ?thesis by (simp add: power_int_minus)
qed

text \<open>
  The product that the mapper truncates, for a coordinate \<open>v\<close> of the side \<open>[lo, hi]\<close> with
  \<open>n\<close> cells: where the side is at least \<open>2^-960\<close> long and its length does not overflow,
  the product is a number within \<open>2^-19\<close> of \<open>(v - lo) * n / (hi - lo)\<close>.
\<close>

lemma mapper_accuracy:
  assumes n: "0 \<le> n" "n < 2 ^ 31" and v: "lo \<le> v" "v \<le> hi"
    and S: "2 powi (- 960) \<le> hi - lo"
    and fin: "is_finite (sub64 (Finite hi) (Finite lo))"
  obtains p where
    "mul64 (sub64 (Finite v) (Finite lo))
       (div64 (int_to_double n) (sub64 (Finite hi) (Finite lo))) = Finite p"
    and "0 \<le> p" and "\<bar>p - (v - lo) * of_int n / (hi - lo)\<bar> \<le> 2 powi (- 19)"
proof -
  define N :: rat where "N = of_int n"
  have N: "0 \<le> N" "N \<le> 2 ^ 31"
  proof -
    show "0 \<le> N" using n(1) by (simp add: N_def)
    have "(of_int n :: rat) \<le> of_int (2 ^ 31)"
      using n(2) by (simp only: of_int_le_iff)
    then show "N \<le> 2 ^ 31" by (simp add: N_def)
  qed
  have Spos: "0 < hi - lo" using S two_powi_pos [of "- 960"] by linarith
  have span: "sub64 (Finite hi) (Finite lo) = rnd64 (hi - lo)"
    by (simp add: fp_ops)
  then obtain s where s: "rnd64 (hi - lo) = Finite s"
    using fin by (cases "rnd64 (hi - lo)") simp_all
  have "(2::rat) powi (- 1022) \<le> 2 powi (- 960)" by (intro two_powi_mono) simp
  then have normal: "2 powi (- 1022) \<le> hi - lo" using S by linarith
  note sb = rnd64_relative [OF normal s]
  have half: "(hi - lo) * (1 / 2) \<le> (hi - lo) * (1 - 2 powi (- 53))"
    using Spos by (intro mult_left_mono) (simp_all add: power_int_minus)
  have hs: "hi - lo \<le> 2 * s"
    using order_trans [OF half sb(1)] by simp
  have spos: "0 < s" using hs Spos by linarith
  have "s < 2 powi 1024" using rnd64_below [OF s] by simp
  then have "hi - lo \<le> 2 * 2 powi 1024" using hs by linarith
  also have "\<dots> = 2 powi 1025"
  proof -
    have "(2::rat) powi 1025 = 2 powi 1 * 2 powi 1024"
      by (simp only: two_powi_add [symmetric]) simp
    then show ?thesis by simp
  qed
  finally have S2: "hi - lo \<le> 2 powi 1025" .
  have x1: "0 \<le> v - lo" "v - lo \<le> hi - lo" using v by simp_all
  have "fp_le (rnd64 (v - lo)) (rnd64 (hi - lo))"
    unfolding rnd64_def using x1 by (intro rnd_mono) simp_all
  moreover have "nonneg_fp (rnd64 (v - lo))"
    unfolding rnd64_def using x1(1) by (rule rnd_nonneg_fp)
  ultimately obtain d where d: "rnd64 (v - lo) = Finite d" and d0: "0 \<le> d"
    using fp_le_Finite [of "rnd64 (v - lo)" s] by (auto simp: s)
  note db = rnd64_error [OF d]
  have y0: "0 \<le> N / s" using N(1) spos by simp
  have "N / s \<le> 2 powi 1023"
  proof -
    have "2 powi (- 960) * (1 / 2) \<le> s" using hs S by linarith
    moreover have "(2::rat) powi (- 960) * (1 / 2) = 2 powi (- 961)"
    proof -
      have "(2::rat) powi (- 961) * 2 powi 1 = 2 powi (- 960)"
        by (simp only: two_powi_add [symmetric]) simp
      then show ?thesis by simp
    qed
    ultimately have s961: "2 powi (- 961) \<le> s" by simp
    have "N / s \<le> N / 2 powi (- 961)"
      using s961 N(1) by (intro divide_left_mono) simp_all
    also have "\<dots> \<le> 2 ^ 31 / 2 powi (- 961)"
      using N(2) by (intro divide_right_mono) simp_all
    also have "\<dots> = 2 powi 31 / 2 powi (- 961)" by simp
    also have "\<dots> = 2 powi 992"
    proof -
      have "(2::rat) powi 31 = 2 powi 992 * 2 powi (- 961)"
        by (simp only: two_powi_add [symmetric]) simp
      then show ?thesis by simp
    qed
    also have "\<dots> \<le> 2 powi 1023" by (intro two_powi_mono) simp
    finally show ?thesis .
  qed
  then obtain c where c: "rnd64 (N / s) = Finite c" and c0: "0 \<le> c"
    using rnd64_finite [OF y0] by blast
  note cb = rnd64_error [OF c]
  note prod = mapper_product_error [OF x1 S S2 N sb d0 db c0 cb]
  define X where "X = (v - lo) * N / (hi - lo)"
  have X: "0 \<le> X" "X \<le> N" "\<bar>d * c - X\<bar> \<le> 6 / 2 ^ 53 * X + 1 / 2 ^ 48"
    unfolding X_def by (rule prod)+
  have dc0: "0 \<le> d * c" using d0 c0 by simp
  have "d * c \<le> 2 powi 1023"
  proof -
    have "d * c \<le> X + 6 / 2 ^ 53 * X + 1 / 2 ^ 48"
      using X(3) by linarith
    also have "\<dots> \<le> 2 ^ 32"
      using X(1,2) N(2) by simp
    also have "\<dots> = 2 powi 32" by simp
    also have "\<dots> \<le> 2 powi 1023" by (intro two_powi_mono) simp
    finally show ?thesis .
  qed
  then obtain p where p: "rnd64 (d * c) = Finite p" and p0: "0 \<le> p"
    using rnd64_finite [OF dc0] by blast
  note pb = rnd64_error [OF p]
  have "\<bar>p - X\<bar> \<le> 2 powi (- 19)"
    using X(1,2) N(2) dc0 X(3) pb by (rule mapper_error_bound)
  then have "\<bar>p - (v - lo) * N / (hi - lo)\<bar> \<le> 2 powi (- 19)"
    by (simp only: X_def)
  moreover have "int_to_double n = Finite N"
    using n by (simp add: int_to_double_def rnd64_of_int N_def)
  then have "mul64 (sub64 (Finite v) (Finite lo))
       (div64 (int_to_double n) (sub64 (Finite hi) (Finite lo))) = Finite p"
    using spos by (simp add: fp_ops s d c p)
  ultimately show ?thesis using that p0 by (simp add: N_def)
qed

lemma mapper_index:
  assumes "0 \<le> n" and "n < 2 ^ 31" and "lo \<le> v" and "v \<le> hi"
    and "2 powi (- 960) \<le> hi - lo"
    and "is_finite (sub64 (Finite hi) (Finite lo))"
  obtains p where "rowFromReal (Finite v) (Finite lo) (Finite hi) n = Inr \<lfloor>p\<rfloor>"
    and "0 \<le> p" and "\<bar>p - (v - lo) * of_int n / (hi - lo)\<bar> \<le> 1 / 2 ^ 19"
proof -
  define X :: rat where "X = (v - lo) * of_int n / (hi - lo)"
  obtain p where p: "mul64 (sub64 (Finite v) (Finite lo))
       (div64 (int_to_double n) (sub64 (Finite hi) (Finite lo))) = Finite p"
    and p0: "0 \<le> p" and "\<bar>p - X\<bar> \<le> 2 powi (- 19)"
    unfolding X_def using assms by (rule mapper_accuracy)
  then have pX: "\<bar>p - X\<bar> \<le> 1 / 2 ^ 19" by (simp add: power_int_minus)
  define dl :: rat where "dl = 1 / 2 ^ 19"
  have dl: "dl < 1" by (simp add: dl_def)
  have pd: "\<bar>p - X\<bar> \<le> dl" using pX by (simp only: dl_def)
  have Spos: "0 < hi - lo" using assms(5) two_powi_pos [of "- 960"] by linarith
  have "X = of_int n * ((v - lo) / (hi - lo))" by (simp add: X_def)
  also have "\<dots> \<le> of_int n * 1"
    using assms(1,3,4) Spos by (intro mult_left_mono) simp_all
  finally have "X \<le> of_int n" by simp
  moreover have "(of_int n :: rat) \<le> of_int (2 ^ 31 - 1)"
    using assms(2) by (simp only: of_int_le_iff)
  ultimately have "X \<le> 2 ^ 31 - 1" by simp
  then have "p < 2 ^ 31" using pd dl by linarith
  then have "p < of_int (2 ^ 31)" by simp
  then have "\<lfloor>p\<rfloor> < 2 ^ 31" by (simp only: floor_less_iff)
  moreover have "0 \<le> \<lfloor>p\<rfloor>" using p0 by simp
  ultimately have "rowFromReal (Finite v) (Finite lo) (Finite hi) n = Inr \<lfloor>p\<rfloor>"
    using p0 by (simp add: rowFromReal_def p truncate_def)
  then show ?thesis using that p0 pX by (simp add: X_def)
qed

text \<open>
  C8, amended. The mapper computes the scale factor \<open>imageHeight / (maxR - minR)\<close> first and
  multiplies by it, each operation rounded. For a side \<open>[lo, hi]\<close> at least \<open>2^-960\<close> long
  whose length does not overflow, fewer than \<open>2^31\<close> cells and a value \<open>v\<close> in \<open>[lo, hi]\<close>,
  the index is the truncation of a number within \<open>2^-19\<close> of
  \<open>X = (v - lo) * n / (hi - lo)\<close>, for rows and columns alike. So it differs from \<open>X\<close>
  truncated by at most one; it equals \<open>X\<close> truncated where \<open>X\<close> is at least \<open>2^-19\<close> away
  from the whole numbers around it, and where none of the four operations rounds. The
  value \<open>lo\<close> gets the index 0, and \<open>hi\<close> gets \<open>n\<close> or \<open>n - 1\<close>.
\<close>

theorem mapper_formula_accuracy:
  assumes "0 \<le> n" and "n < 2 ^ 31" and "lo \<le> v" and "v \<le> hi"
    and "2 powi (- 960) \<le> hi - lo"
    and "is_finite (sub64 (Finite hi) (Finite lo))"
    and "X = (v - lo) * of_int n / (hi - lo)"
  shows "\<exists>r. rowFromReal (Finite v) (Finite lo) (Finite hi) n = Inr r \<and>
           colFromImaginary (Finite v) (Finite lo) (Finite hi) n = Inr r \<and>
           (\<exists>p. r = truncate p \<and> 0 \<le> p \<and> \<bar>p - X\<bar> \<le> 2 powi (- 19)) \<and>
           \<bar>r - truncate X\<bar> \<le> 1 \<and>
           (of_int (truncate X) + 2 powi (- 19) \<le> X \<and> X + 2 powi (- 19) < of_int (truncate X) + 1 \<longrightarrow>
              r = truncate X) \<and>
           (is_double (Finite (v - lo)) \<and> is_double (Finite (hi - lo)) \<and>
            is_double (Finite (of_int n / (hi - lo))) \<and>
            is_double (Finite ((v - lo) * (of_int n / (hi - lo)))) \<longrightarrow> r = truncate X) \<and>
           (v = lo \<longrightarrow> r = 0) \<and>
           (v = hi \<longrightarrow> r = n \<or> r = n - 1)"
proof -
  define dl :: rat where "dl = 1 / 2 ^ 19"
  have dl: "0 < dl" "dl < 1" by (simp_all add: dl_def)
  obtain p where row: "rowFromReal (Finite v) (Finite lo) (Finite hi) n = Inr \<lfloor>p\<rfloor>"
    and p0: "0 \<le> p" and pX: "\<bar>p - X\<bar> \<le> dl"
    unfolding assms(7) dl_def using assms(1-6) by (rule mapper_index)
  have Spos: "0 < hi - lo" using assms(5) two_powi_pos [of "- 960"] by linarith
  have X0: "0 \<le> X"
    unfolding assms(7) using assms(1,3) Spos by simp
  have tX: "truncate X = \<lfloor>X\<rfloor>" using X0 by (simp add: truncate_def)
  have tp: "truncate p = \<lfloor>p\<rfloor>" using p0 by (simp add: truncate_def)
  have e: "(2::rat) powi (- 19) = dl" by (simp add: power_int_minus dl_def)
  have 1: "\<exists>q. \<lfloor>p\<rfloor> = truncate q \<and> 0 \<le> q \<and> \<bar>q - X\<bar> \<le> 2 powi (- 19)"
    using tp p0 pX unfolding e by metis
  have 2: "\<bar>\<lfloor>p\<rfloor> - truncate X\<bar> \<le> 1"
  proof -
    have "p \<le> X + 1" "X - 1 \<le> p" using pX dl by linarith+
    then have "\<lfloor>p\<rfloor> \<le> \<lfloor>X + 1\<rfloor>" "\<lfloor>X - 1\<rfloor> \<le> \<lfloor>p\<rfloor>" by (simp_all only: floor_mono)
    then show ?thesis by (simp add: tX)
  qed
  have 3: "\<lfloor>p\<rfloor> = truncate X"
    if "of_int (truncate X) + 2 powi (- 19) \<le> X \<and> X + 2 powi (- 19) < of_int (truncate X) + 1"
  proof -
    have "of_int \<lfloor>X\<rfloor> \<le> p" "p < of_int \<lfloor>X\<rfloor> + 1"
      using that pX unfolding e tX by linarith+
    then show ?thesis unfolding tX by (rule floor_unique)
  qed
  have 4: "\<lfloor>p\<rfloor> = truncate X"
    if "is_double (Finite (v - lo)) \<and> is_double (Finite (hi - lo)) \<and>
        is_double (Finite (of_int n / (hi - lo))) \<and>
        is_double (Finite ((v - lo) * (of_int n / (hi - lo))))"
  proof -
    have "lo < hi" using Spos by simp
    then have "rowFromReal (Finite v) (Finite lo) (Finite hi) n =
        Inr (truncate ((v - lo) * of_int n / (hi - lo)))"
      using assms(1-4) that by (intro mapper_without_rounding) simp_all
    then show ?thesis using row by (simp add: assms(7))
  qed
  have 5: "\<lfloor>p\<rfloor> = 0" if "v = lo"
  proof -
    have "X = 0" using that by (simp add: assms(7))
    then have "of_int 0 \<le> p" "p < of_int 0 + 1" using pX p0 dl by simp_all
    then show ?thesis by (rule floor_unique)
  qed
  have 6: "\<lfloor>p\<rfloor> = n \<or> \<lfloor>p\<rfloor> = n - 1" if "v = hi"
  proof -
    have "X = of_int n" using that Spos by (simp add: assms(7))
    then have "of_int n - 1 \<le> p" "p < of_int n + 1" using pX dl by linarith+
    then have "of_int (n - 1) \<le> p" "p < of_int (n + 1)" by simp_all
    then have "n - 1 \<le> \<lfloor>p\<rfloor>" "\<lfloor>p\<rfloor> < n + 1"
      by (simp_all only: le_floor_iff floor_less_iff)
    then show ?thesis by linarith
  qed
  show ?thesis
    using row 1 2 3 4 5 6 by (intro exI [of _ "\<lfloor>p\<rfloor>"]) (simp add: colFromImaginary_rowFromReal)
qed

lemma reference_side:
  "(0::int) \<le> 200" "(200::int) < 2 ^ 31"
  "(2::rat) powi (- 960) \<le> 2 - (- 2)" "is_finite (sub64 (Finite 2) (Finite (- 2)))"
proof -
  have "(2::rat) powi (- 960) \<le> 2 powi 0" by (intro two_powi_mono) simp
  then show "(2::rat) powi (- 960) \<le> 2 - (- 2)" by simp
  show "is_finite (sub64 (Finite 2) (Finite (- 2)))" by (simp add: fp_ops)
qed simp_all

theorem mapper_formula_accuracy_witness:
  "rowFromReal (Finite (33 / 64)) (Finite (- 2)) (Finite 2) 200 = Inr 125 \<and>
   colFromImaginary (Finite (33 / 64)) (Finite (- 2)) (Finite 2) 200 = Inr 125 \<and>
   truncate ((33 / 64 - (- 2)) * of_int 200 / (2 - (- 2))) = 125 \<and>
   rowFromReal (Finite 2) (Finite (- 2)) (Finite 2) 200 = Inr 200 \<and>
   (2::rat) powi (- 960) \<le> 2 - (- 2) \<and> is_finite (sub64 (Finite 2) (Finite (- 2)))"
proof -
  have v: "(- 2 :: rat) \<le> 33 / 64" "(33 / 64 :: rat) \<le> 2" by simp_all
  have X: "(4025 / 32 :: rat) = (33 / 64 - (- 2)) * of_int 200 / (2 - (- 2))" by simp
  have t: "truncate (4025 / 32) = 125" by (simp add: truncate_def)
  have c: "of_int (truncate (4025 / 32)) + 2 powi (- 19) \<le> (4025 / 32 :: rat) \<and>
      (4025 / 32 :: rat) + 2 powi (- 19) < of_int (truncate (4025 / 32)) + 1"
    unfolding t by (simp add: power_int_minus)
  obtain r where "rowFromReal (Finite (33 / 64)) (Finite (- 2)) (Finite 2) 200 = Inr r"
    and "colFromImaginary (Finite (33 / 64)) (Finite (- 2)) (Finite 2) 200 = Inr r"
    and "of_int (truncate (4025 / 32)) + 2 powi (- 19) \<le> (4025 / 32 :: rat) \<and>
      (4025 / 32 :: rat) + 2 powi (- 19) < of_int (truncate (4025 / 32)) + 1 \<longrightarrow> r = truncate (4025 / 32)"
    using mapper_formula_accuracy [OF reference_side(1,2) v reference_side(3,4) X] by blast
  then have 1: "rowFromReal (Finite (33 / 64)) (Finite (- 2)) (Finite 2) 200 = Inr 125"
    and 2: "colFromImaginary (Finite (33 / 64)) (Finite (- 2)) (Finite 2) 200 = Inr 125"
    using c t by simp_all
  have 3: "truncate ((33 / 64 - (- 2)) * of_int 200 / (2 - (- 2))) = 125"
    unfolding X [symmetric] by (rule t)
  have w: "(- 2 :: rat) \<le> 2" "(2::rat) \<le> 2" by simp_all
  have Y: "(200::rat) = (2 - (- 2)) * of_int 200 / (2 - (- 2))" by simp
  have e: "is_double (Finite (2 - (- 2))) \<and> is_double (Finite (2 - (- 2))) \<and>
      is_double (Finite (of_int 200 / (2 - (- 2)))) \<and>
      is_double (Finite ((2 - (- 2)) * (of_int 200 / (2 - (- 2)))))"
    by simp
  obtain r' where "rowFromReal (Finite 2) (Finite (- 2)) (Finite 2) 200 = Inr r'"
    and "is_double (Finite (2 - (- 2))) \<and> is_double (Finite (2 - (- 2))) \<and>
      is_double (Finite (of_int 200 / (2 - (- 2)))) \<and>
      is_double (Finite ((2 - (- 2)) * (of_int 200 / (2 - (- 2))))) \<longrightarrow> r' = truncate 200"
    using mapper_formula_accuracy [OF reference_side(1,2) w reference_side(3,4) Y] by blast
  then have 4: "rowFromReal (Finite 2) (Finite (- 2)) (Finite 2) 200 = Inr 200"
    using e by (simp add: truncate_def)
  show ?thesis using 1 2 3 4 reference_side(3,4) by blast
qed

lemma round_trip_near_centre:
  assumes "0 \<le> k" and "k < n" and "n < 2 ^ 31"
    and "2 powi (- 960) \<le> hi - lo"
    and "is_finite (sub64 (Finite hi) (Finite lo))"
    and "\<bar>v - (lo + (of_int k + 1 / 2) * (hi - lo) / of_int n)\<bar> \<le> (hi - lo) / of_int n / 4"
  shows "rowFromReal (Finite v) (Finite lo) (Finite hi) n = Inr k"
proof -
  define S where "S = hi - lo"
  define N :: rat where "N = of_int n"
  define K :: rat where "K = of_int k"
  define t where "t = (v - (lo + (K + 1 / 2) * S / N)) * (N / S)"
  define X where "X = (v - lo) * N / S"
  have Spos: "0 < S" using assms(4) two_powi_pos [of "- 960"] unfolding S_def by linarith
  have Npos: "0 < N" using assms(1,2) by (simp add: N_def)
  have K0: "0 \<le> K" using assms(1) by (simp add: K_def)
  have "(of_int k :: rat) + 1 \<le> of_int n"
    using assms(2) by (metis of_int_1 of_int_add of_int_le_iff zless_imp_add1_zle)
  then have KN: "K + 1 \<le> N" by (simp add: K_def N_def)
  have NS: "0 < N / S" using Spos Npos by simp
  have "\<bar>t\<bar> = \<bar>v - (lo + (K + 1 / 2) * S / N)\<bar> * (N / S)"
    using Spos Npos by (simp add: t_def abs_mult)
  also have "\<dots> \<le> S / N / 4 * (N / S)"
    using assms(6) NS by (intro mult_right_mono) (simp_all add: S_def N_def K_def)
  also have "\<dots> = 1 / 4" using Spos Npos by simp
  finally have t: "\<bar>t\<bar> \<le> 1 / 4" .
  have X: "X = K + 1 / 2 + t"
    using Spos Npos by (simp add: X_def t_def field_simps)
  have X0: "0 \<le> X" "X \<le> N" using X t K0 KN by linarith+
  have vlo: "v - lo = X * (S / N)"
    using Spos Npos by (simp add: X_def)
  have "0 \<le> X * (S / N)" using X0(1) Spos Npos by simp
  moreover have "X * (S / N) \<le> N * (S / N)"
    using X0(2) Spos Npos by (intro mult_right_mono) simp_all
  moreover have "N * (S / N) = S" using Npos by simp
  ultimately have "0 \<le> v - lo" "v - lo \<le> hi - lo"
    unfolding vlo by (simp_all add: S_def)
  then have v: "lo \<le> v" "v \<le> hi" by simp_all
  have n0: "0 \<le> n" using assms(1,2) by simp
  obtain p where row: "rowFromReal (Finite v) (Finite lo) (Finite hi) n = Inr \<lfloor>p\<rfloor>"
    and "\<bar>p - (v - lo) * of_int n / (hi - lo)\<bar> \<le> 1 / 2 ^ 19"
    using n0 assms(3) v assms(4,5) by (rule mapper_index)
  then have pX: "\<bar>p - X\<bar> \<le> 1 / 2 ^ 19" by (simp add: X_def N_def S_def)
  define dl :: rat where "dl = 1 / 2 ^ 19"
  have dl: "dl < 1 / 4" by (simp add: dl_def)
  have "\<bar>p - X\<bar> \<le> dl" using pX by (simp only: dl_def)
  then have "K \<le> p" "p < K + 1" using X t dl by linarith+
  then have "of_int k \<le> p" "p < of_int k + 1" by (simp_all add: K_def)
  then have "\<lfloor>p\<rfloor> = k" by (rule floor_unique)
  with row show ?thesis by simp
qed

text \<open>
  C9, amended. For a side \<open>[lo, hi]\<close> at least \<open>2^-960\<close> long whose length does not
  overflow, and fewer than \<open>2^31\<close> cells, the centre of the bucket of cell \<open>k\<close> is mapped
  back to \<open>k\<close>, as a row and as a column; so is every coordinate within a quarter of a cell
  of the centre, and with it the double nearest to the centre where the centre itself is
  not a double, as long as \<open>|centre| * n \<le> 2^50 * (hi - lo)\<close>.
\<close>

theorem mapper_round_trip_in_range:
  assumes "0 \<le> k" and "k < n" and "n < 2 ^ 31"
    and "2 powi (- 960) \<le> hi - lo"
    and "is_finite (sub64 (Finite hi) (Finite lo))"
    and "centre = lo + (of_int k + 1 / 2) * (hi - lo) / of_int n"
  shows "rowFromReal (Finite centre) (Finite lo) (Finite hi) n = Inr k \<and>
         colFromImaginary (Finite centre) (Finite lo) (Finite hi) n = Inr k \<and>
         (\<forall>v. \<bar>v - centre\<bar> \<le> (hi - lo) / of_int n / 4 \<longrightarrow>
            rowFromReal (Finite v) (Finite lo) (Finite hi) n = Inr k \<and>
            colFromImaginary (Finite v) (Finite lo) (Finite hi) n = Inr k) \<and>
         (\<forall>v. rnd64 centre = Finite v \<and> \<bar>centre\<bar> * of_int n \<le> 2 powi 50 * (hi - lo) \<longrightarrow>
            rowFromReal (Finite v) (Finite lo) (Finite hi) n = Inr k \<and>
            colFromImaginary (Finite v) (Finite lo) (Finite hi) n = Inr k)"
proof -
  define w where "w = (hi - lo) / of_int n"
  have Spos: "0 < hi - lo" using assms(4) two_powi_pos [of "- 960"] by linarith
  have Npos: "(0::rat) < of_int n" using assms(1,2) by simp
  have w0: "0 < w" using Spos Npos by (simp add: w_def)
  have near: "rowFromReal (Finite v) (Finite lo) (Finite hi) n = Inr k"
    if "\<bar>v - centre\<bar> \<le> w / 4" for v
    using assms(1-5) that unfolding assms(6) w_def by (rule round_trip_near_centre)
  have 1: "rowFromReal (Finite centre) (Finite lo) (Finite hi) n = Inr k"
    using w0 by (intro near) simp
  have 3: "rowFromReal (Finite v) (Finite lo) (Finite hi) n = Inr k"
    if r: "rnd64 centre = Finite v" and far: "\<bar>centre\<bar> * of_int n \<le> 2 powi 50 * (hi - lo)" for v
  proof -
    have "(of_int n :: rat) \<le> of_int (2 ^ 31)"
      using assms(3) by (simp only: of_int_le_iff)
    then have N31: "(of_int n :: rat) \<le> 2 powi 31" by simp
    have "2 powi (- 991) * of_int n \<le> 2 powi (- 991) * (2::rat) powi 31"
      using N31 by (intro mult_left_mono) simp_all
    also have "\<dots> = 2 powi (- 960)"
      by (simp only: two_powi_add [symmetric]) simp
    finally have "2 powi (- 991) \<le> w"
      using assms(4) Npos by (simp add: w_def pos_le_divide_eq)
    moreover have "(2::rat) powi (- 1075) \<le> 2 powi (- 994)" by (intro two_powi_mono) simp
    moreover have "(2::rat) powi (- 994) * 8 = 2 powi (- 991)"
    proof -
      have "(2::rat) powi (- 994) * 2 powi 3 = 2 powi (- 991)"
        by (simp only: two_powi_add [symmetric]) simp
      then show ?thesis by simp
    qed
    ultimately have a: "2 powi (- 1075) \<le> w / 8" by linarith
    have "\<bar>centre\<bar> \<le> 2 powi 50 * (hi - lo) / of_int n"
      using far Npos by (simp add: pos_le_divide_eq)
    then have "\<bar>centre\<bar> \<le> 2 powi 50 * w" by (simp add: w_def)
    then have "\<bar>centre\<bar> * 2 powi (- 53) \<le> 2 powi 50 * w * 2 powi (- 53)"
      by (intro mult_right_mono) simp_all
    also have "2 powi 50 * w * 2 powi (- 53) = w * (2 powi 50 * 2 powi (- 53))" by simp
    also have "(2::rat) powi 50 * 2 powi (- 53) = 2 powi (- 3)"
      by (simp only: two_powi_add [symmetric]) simp
    also have "w * 2 powi (- 3) = w / 8" by (simp add: power_int_minus)
    finally have b: "\<bar>centre\<bar> * 2 powi (- 53) \<le> w / 8" .
    have "\<bar>v - centre\<bar> \<le> w / 4"
      using rnd64_error [OF r] a b by linarith
    then show ?thesis by (rule near)
  qed
  show ?thesis
    using 1 near 3 by (simp add: colFromImaginary_rowFromReal w_def)
qed

lemma floor_rat_neg_numeral:
  "\<lfloor>- (numeral a / numeral b :: rat)\<rfloor> = (- numeral a) div numeral b"
  using floor_divide_of_int_eq [of "- numeral a" "numeral b", where ?'a = rat] by simp

lemma rnd64_reference_centre:
  "rnd64 (- (199 / 100)) = Finite (- (8962163258467287 / 4503599627370496))"
  unfolding rnd64_def
  by (subst rnd_eval [where e = 0])
    (simp_all add: round_half_even_def Let_def power_int_minus floor_rat_neg_numeral)

theorem mapper_round_trip_in_range_witness:
  "rowFromReal (Finite (- (7 / 4))) (Finite (- 2)) (Finite 2) 200 = Inr 12 \<and>
   colFromImaginary (Finite (- (7 / 4))) (Finite (- 2)) (Finite 2) 200 = Inr 12 \<and>
   (- (7 / 4) :: rat) = - 2 + (of_int 12 + 1 / 2) * (2 - (- 2)) / of_int 200 \<and>
   (- (199 / 100) :: rat) = - 2 + (of_int 0 + 1 / 2) * (2 - (- 2)) / of_int 200 \<and>
   rnd64 (- (199 / 100)) = Finite (- (8962163258467287 / 4503599627370496)) \<and>
   rowFromReal (Finite (- (8962163258467287 / 4503599627370496))) (Finite (- 2)) (Finite 2) 200 = Inr 0 \<and>
   colFromImaginary (Finite (- (8962163258467287 / 4503599627370496))) (Finite (- 2)) (Finite 2) 200 = Inr 0"
proof -
  have k: "(0::int) \<le> 12" "(12::int) < 200" "(0::int) \<le> 0" "(0::int) < 200" by simp_all
  have c12: "(- (7 / 4) :: rat) = - 2 + (of_int 12 + 1 / 2) * (2 - (- 2)) / of_int 200" by simp
  have c0: "(- (199 / 100) :: rat) = - 2 + (of_int 0 + 1 / 2) * (2 - (- 2)) / of_int 200" by simp
  have far: "\<bar>- (199 / 100) :: rat\<bar> * of_int 200 \<le> 2 powi 50 * (2 - (- 2))" by simp
  note a = mapper_round_trip_in_range [OF k(1,2) reference_side(2,3,4) c12]
  note b = mapper_round_trip_in_range [OF k(3,4) reference_side(2,3,4) c0]
  have 1: "rowFromReal (Finite (- (7 / 4))) (Finite (- 2)) (Finite 2) 200 = Inr 12"
    and 2: "colFromImaginary (Finite (- (7 / 4))) (Finite (- 2)) (Finite 2) 200 = Inr 12"
    using a by blast+
  have 3: "rowFromReal (Finite (- (8962163258467287 / 4503599627370496))) (Finite (- 2)) (Finite 2) 200 = Inr 0"
    and 4: "colFromImaginary (Finite (- (8962163258467287 / 4503599627370496))) (Finite (- 2)) (Finite 2) 200 = Inr 0"
    using b rnd64_reference_centre far by blast+
  show ?thesis
    using 1 2 3 4 c12 c0 rnd64_reference_centre by blast
qed

text \<open>
  The lower bound on the side is needed as well: on \<open>[0, 2^-1073]\<close> with a single cell the
  centre \<open>2^-1074\<close> is a double, but the scale factor \<open>1 / 2^-1073\<close> overflows to \<open>+\<infinity>\<close>, the
  product is \<open>+\<infinity>\<close>, and converting it to \<^verbatim>\<open>int\<close> is undefined.
\<close>

lemma mapper_round_trip_tiny_side:
  "(2::rat) powi (- 1074) = 0 + (of_int 0 + 1 / 2) * (2 powi (- 1073) - 0) / of_int 1 \<and>
   is_double (Finite (2 powi (- 1074))) \<and> is_double (Finite (2 powi (- 1073))) \<and>
   rowFromReal (Finite (2 powi (- 1074))) (Finite 0) (Finite (2 powi (- 1073))) 1 =
     Inl UndefinedBehaviour"
proof -
  have "rnd 53 1023 (of_int 1 * 2 powi (- 1074)) = Finite (of_int 1 * 2 powi (- 1074))"
    by (rule rnd_dyadic) simp_all
  then have a: "rnd64 (2 powi (- 1074)) = Finite (2 powi (- 1074))"
    by (simp only: rnd64_def of_int_1 mult_1)
  have "rnd 53 1023 (of_int 1 * 2 powi (- 1073)) = Finite (of_int 1 * 2 powi (- 1073))"
    by (rule rnd_dyadic) simp_all
  then have b: "rnd64 (2 powi (- 1073)) = Finite (2 powi (- 1073))"
    by (simp only: rnd64_def of_int_1 mult_1)
  have "(1::rat) / 2 powi (- 1073) = 2 ^ 1073"
    by (simp add: power_int_minus)
  moreover have "rnd64 (2 ^ 1073) = PInf"
    unfolding rnd64_def
    by (subst rnd_eval [where e = 1073]) (simp_all add: round_half_even_def Let_def)
  ultimately have c: "rnd64 (1 / 2 powi (- 1073)) = PInf" by (simp only:)
  have h: "(2::rat) powi (- 1074) = 0 + (of_int 0 + 1 / 2) * (2 powi (- 1073) - 0) / of_int 1"
  proof -
    have "(2::rat) powi (- 1073) = 2 powi (- 1074) * 2 powi 1"
      by (simp only: two_powi_add [symmetric]) simp
    then show ?thesis by simp
  qed
  have s: "sub64 (Finite x) (Finite 0) = rnd64 x" for x
    by (simp add: fp_ops)
  have d: "div64 (int_to_double 1) (Finite y) = rnd64 (1 / y)" if "0 < y" for y
    using that by (simp add: int_to_double_def fp_ops)
  have m: "mul64 (Finite y) PInf = PInf" if "0 < y" for y
    using that by (simp add: fp_ops)
  have "rowFromReal (Finite (2 powi (- 1074))) (Finite 0) (Finite (2 powi (- 1073))) 1 =
     double_to_int (mul64 (Finite (2 powi (- 1074))) (div64 (int_to_double 1) (Finite (2 powi (- 1073)))))"
    by (simp only: rowFromReal_def s a b)
  also have "\<dots> = double_to_int (mul64 (Finite (2 powi (- 1074))) PInf)"
    by (simp only: d [OF two_powi_pos] c)
  also have "\<dots> = double_to_int PInf"
    by (simp only: m [OF two_powi_pos])
  finally have "rowFromReal (Finite (2 powi (- 1074))) (Finite 0) (Finite (2 powi (- 1073))) 1 =
     Inl UndefinedBehaviour" by (simp only: double_to_int.simps)
  moreover have "is_double (Finite (2 powi (- 1074)))" "is_double (Finite (2 powi (- 1073)))"
    by (simp_all only: is_double.simps a b)
  ultimately show ?thesis using h by blast
qed

section \<open>The running maximum at the edge of the rectangle\<close>







end
